theory Spec2Isabelle
  imports Complex_Main
begin

section \<open>Vectorizer: vectoriseEdges (src/utils/algo.ts, lines 159-234)\<close>

text \<open>
  A Point is the object \<open>{x, y}\<close>; during tracing both fields are integers.  The
  neighbour coordinates \<open>curr.x + dx\<close> may leave the image on either side, so the
  coordinates are \<open>int\<close>; the image dimensions are natural numbers.
\<close>

type_synonym point = "int \<times> int"

text \<open>
  \<open>edgeData[(y * width + x) * 4] === 255\<close>.  The buffer is a Uint8ClampedArray,
  here a list of bytes.  A read past the end of a typed array gives \<open>undefined\<close>,
  which is not \<open>=== 255\<close>: the length test writes that out.
\<close>

definition isEdge :: "nat list \<Rightarrow> nat \<Rightarrow> int \<Rightarrow> int \<Rightarrow> bool" where
  "isEdge edgeData width x y =
     (let i = (y * int width + x) * 4
      in 0 \<le> i \<and> nat i < length edgeData \<and> edgeData ! nat i = 255)"

text \<open>Lines 161-169: the row-major scan collecting the edge pixels.\<close>

definition edgePixels :: "nat list \<Rightarrow> nat \<Rightarrow> nat \<Rightarrow> point list" where
  "edgePixels edgeData width height =
     [(int x, int y). y \<leftarrow> [0..<height], x \<leftarrow> [0..<width],
                      isEdge edgeData width (int x) (int y)]"

text \<open>
  Lines 190-192: the offsets \<open>(dx, dy)\<close> in the order the two nested loops produce
  them, \<open>dy\<close> outermost, the centre skipped by \<open>continue\<close>.
\<close>

definition neighbourOffsets :: "(int \<times> int) list" where
  "neighbourOffsets =
     [(dx, dy). dy \<leftarrow> [-1, 0, 1], dx \<leftarrow> [-1, 0, 1], \<not> (dx = 0 \<and> dy = 0)]"

definition inBounds :: "nat \<Rightarrow> nat \<Rightarrow> point \<Rightarrow> bool" where
  "inBounds width height p =
     (fst p \<ge> 0 \<and> fst p < int width \<and> snd p \<ge> 0 \<and> snd p < int height)"

text \<open>
  Lines 190-208: the neighbour search of one iteration of the walk.  The result is the
  first neighbour in scan order that is inside the image, not yet visited and an edge
  pixel (the two \<open>break\<close>s), or \<open>None\<close> when \<open>foundNext\<close> stays false.  The
  visited set holds the keys \<open>`${x},${y}`\<close>, which determine the integer pair.
\<close>

definition findNext ::
  "nat list \<Rightarrow> nat \<Rightarrow> nat \<Rightarrow> point set \<Rightarrow> point \<Rightarrow> point option" where
  "findNext edgeData width height visited cur =
     find (\<lambda>n. inBounds width height n \<and> n \<notin> visited \<and> isEdge edgeData width (fst n) (snd n))
          (map (\<lambda>(dx, dy). (fst cur + dx, snd cur + dy)) neighbourOffsets)"

text \<open>
  Lines 185-213: the \<open>while (stack.length)\<close> loop.  The stack is a list whose head is
  the top (\<open>curr = stack[stack.length - 1]\<close>, written \<open>cur\<close>); the state is the
  stack, the visited set and the path, and the loop returns the last two.
\<close>

function walk ::
  "nat list \<Rightarrow> nat \<Rightarrow> nat \<Rightarrow> point list \<Rightarrow> point set \<Rightarrow> point list
     \<Rightarrow> point set \<times> point list" where
  "walk edgeData width height [] visited path = (visited, path)"
| "walk edgeData width height (cur # stack) visited path =
     (case findNext edgeData width height visited cur of
        Some nextPt \<Rightarrow>
          walk edgeData width height (nextPt # cur # stack) (insert nextPt visited)
               (path @ [nextPt])
      | None \<Rightarrow> walk edgeData width height stack visited path)"
  by pat_completeness auto

text \<open>
  The walk terminates: an iteration either takes an edge pixel of the image that was not
  visited, of which there are finitely many, or pops the stack.
\<close>

definition candidates :: "nat list \<Rightarrow> nat \<Rightarrow> nat \<Rightarrow> point set" where
  "candidates edgeData width height =
     {p \<in> (int ` {0..<width}) \<times> (int ` {0..<height}). isEdge edgeData width (fst p) (snd p)}"

lemma finite_candidates: "finite (candidates edgeData width height)"
  by (simp add: candidates_def)

lemma findNext_Some:
  assumes "findNext edgeData width height visited cur = Some n"
  shows "inBounds width height n" "n \<notin> visited" "isEdge edgeData width (fst n) (snd n)"
    "n \<in> set (map (\<lambda>(dx, dy). (fst cur + dx, snd cur + dy)) neighbourOffsets)"
  using assms unfolding findNext_def by (auto simp: find_Some_iff)

lemma findNext_candidate:
  assumes "findNext edgeData width height visited cur = Some n"
  shows "n \<in> candidates edgeData width height - visited"
proof -
  have b: "inBounds width height n" and e: "isEdge edgeData width (fst n) (snd n)"
    and v: "n \<notin> visited"
    using findNext_Some[OF assms] by blast+
  have "fst n \<in> int ` {0..<width}" "snd n \<in> int ` {0..<height}"
    using b unfolding inBounds_def image_iff
    by (metis atLeastLessThan_iff nat_less_iff zero_le nat_0_le)+
  then have "n \<in> (int ` {0..<width}) \<times> (int ` {0..<height})"
    by (cases n) auto
  with e v show ?thesis by (simp add: candidates_def)
qed

lemma findNext_card:
  assumes "findNext edgeData width height visited cur = Some n"
  shows "card (candidates edgeData width height - insert n visited)
           < card (candidates edgeData width height - visited)"
proof -
  let ?C = "candidates edgeData width height"
  have n: "n \<in> ?C - visited"
    using assms by (rule findNext_candidate)
  have "?C - insert n visited = (?C - visited) - {n}" by auto
  moreover have "card ((?C - visited) - {n}) < card (?C - visited)"
    using n finite_candidates by (meson card_Diff1_less finite_Diff)
  ultimately show ?thesis by simp
qed

termination walk
  apply (relation "measure (\<lambda>(edgeData, width, height, stack, visited, path).
                   2 * card (candidates edgeData width height - visited) + length stack)")
    apply simp
   apply simp
  apply (simp, drule findNext_card, linarith)
  done

text \<open>
  Lines 174-218: the outer loop over the scanned pixels.  A pixel already visited is
  skipped; otherwise a walk is started from it, with the pixel on the stack, in the
  visited set and in the path; the completed path is pushed only if
  \<open>path.length > minPathLength\<close>.
\<close>

fun traceLoop ::
  "nat list \<Rightarrow> nat \<Rightarrow> nat \<Rightarrow> int \<Rightarrow> point list \<Rightarrow> point set \<Rightarrow> point list list
     \<Rightarrow> point list list" where
  "traceLoop edgeData width height minPathLength [] visited paths = paths"
| "traceLoop edgeData width height minPathLength (p # pixels) visited paths =
     (if p \<in> visited then traceLoop edgeData width height minPathLength pixels visited paths
      else (case walk edgeData width height [p] (insert p visited) [p] of
              (visited', path) \<Rightarrow>
                traceLoop edgeData width height minPathLength pixels visited'
                  (if int (length path) > minPathLength then paths @ [path] else paths)))"

text \<open>The array \<open>paths\<close> as it stands at line 219: the retained raw paths.\<close>

definition rawPaths :: "nat list \<Rightarrow> nat \<Rightarrow> nat \<Rightarrow> int \<Rightarrow> point list list" where
  "rawPaths edgeData width height minPathLength =
     traceLoop edgeData width height minPathLength (edgePixels edgeData width height) {} []"

text \<open>
  The same outer loop with the test of line 215 left out: every completed walk, kept or
  not.  It is what the length filter is compared with.
\<close>

fun completedWalks ::
  "nat list \<Rightarrow> nat \<Rightarrow> nat \<Rightarrow> point list \<Rightarrow> point set \<Rightarrow> point list list" where
  "completedWalks edgeData width height [] visited = []"
| "completedWalks edgeData width height (p # pixels) visited =
     (if p \<in> visited then completedWalks edgeData width height pixels visited
      else (case walk edgeData width height [p] (insert p visited) [p] of
              (visited', path) \<Rightarrow>
                path # completedWalks edgeData width height pixels visited'))"

text \<open>Line 220: \<open>Math.max(1, Math.floor(simplification))\<close>.\<close>

definition strideOf :: "real \<Rightarrow> nat" where
  "strideOf simplification = nat (max 1 \<lfloor>simplification\<rfloor>)"

text \<open>
  Lines 225-227: \<open>for (i = 0; i < path.length; i += stride)\<close>, collecting the indices
  whose elements are pushed.  The stride is at least 1 at the only call; the test
  \<open>0 < stride\<close> makes the recursion total for the stride 0 that never occurs.
\<close>

function strideLoop :: "nat \<Rightarrow> nat \<Rightarrow> nat \<Rightarrow> nat list \<Rightarrow> nat list" where
  "strideLoop n stride i simplePath =
     (if i < n \<and> 0 < stride then strideLoop n stride (i + stride) (simplePath @ [i])
      else simplePath)"
  by pat_completeness auto
termination
  by (relation "measure (\<lambda>(n, stride, i, simplePath). n - i)") auto

declare strideLoop.simps [simp del]

text \<open>
  Lines 222-232: the simplification of one path.  The elements of a path are objects,
  and \<open>!==\<close> on objects compares references.  Every element of a traced path is an
  object of its own (the scanned pixel, then a fresh \<open>nextPt\<close> per step), so two
  elements are the same reference exactly when their indices are equal; the simplified
  path is therefore built as a list of indices into \<open>path\<close> and read off at the end.
\<close>

definition simplifyPath :: "nat \<Rightarrow> 'a list \<Rightarrow> 'a list" where
  "simplifyPath stride path =
     (if length path < 2 then []
      else let simplePath = strideLoop (length path) stride 0 [];
               simplePath' = (if last simplePath \<noteq> length path - 1
                              then simplePath @ [length path - 1] else simplePath)
           in map (\<lambda>i. path ! i) simplePath')"

text \<open>Lines 160-234: the whole function, the final \<open>filter(p => p.length > 1)\<close> included.\<close>

definition vectoriseEdges ::
  "nat list \<Rightarrow> nat \<Rightarrow> nat \<Rightarrow> real \<Rightarrow> int \<Rightarrow> point list list" where
  "vectoriseEdges edgeData width height simplification minPathLength =
     filter (\<lambda>p. length p > 1)
       (map (simplifyPath (strideOf simplification))
            (rawPaths edgeData width height minPathLength))"


section \<open>Edge detection: toGrayscale, gaussianBlur, cannyEdgeDetection (lines 3-157)\<close>

subsection \<open>Numbers and typed arrays\<close>

text \<open>
  The values held in the Float32Arrays are finite, or \<open>NaN\<close> when a sum has read
  past the end of an array (\<open>undefined * k\<close> is \<open>NaN\<close>).  Infinities do not occur:
  every finite value is bounded by the 8-bit input.  Arithmetic propagates \<open>NaN\<close>,
  and every comparison with \<open>NaN\<close> is false.
\<close>

datatype jsnum = NaN | Fin real

fun jadd :: "jsnum \<Rightarrow> jsnum \<Rightarrow> jsnum" where
  "jadd (Fin a) (Fin b) = Fin (a + b)"
| "jadd _ _ = NaN"

fun jmul :: "jsnum \<Rightarrow> jsnum \<Rightarrow> jsnum" where
  "jmul (Fin a) (Fin b) = Fin (a * b)"
| "jmul _ _ = NaN"

fun jdiv :: "jsnum \<Rightarrow> jsnum \<Rightarrow> jsnum" where
  "jdiv (Fin a) (Fin b) = Fin (a / b)"
| "jdiv _ _ = NaN"

fun jge :: "jsnum \<Rightarrow> jsnum \<Rightarrow> bool" where
  "jge (Fin a) (Fin b) = (a \<ge> b)"
| "jge _ _ = False"

fun jlt :: "jsnum \<Rightarrow> jsnum \<Rightarrow> bool" where
  "jlt (Fin a) (Fin b) = (a < b)"
| "jlt _ _ = False"

fun jle :: "jsnum \<Rightarrow> jsnum \<Rightarrow> bool" where
  "jle (Fin a) (Fin b) = (a \<le> b)"
| "jle _ _ = False"

text \<open>
  The operations whose result depends on floating-point rounding are parameters of the
  model; everything proved holds for every choice of them, the real ones included.
  \<^item> \<open>luma r g b\<close>: \<open>Math.round(0.299 * r + 0.587 * g + 0.114 * b)\<close>, as the byte
    stored in the Uint8Array;
  \<^item> \<open>sqrt32 v\<close>: \<open>Math.sqrt(v)\<close> as stored in a Float32Array;
  \<^item> \<open>atan2_32 y x\<close>: \<open>Math.atan2(y, x)\<close> as stored in a Float32Array;
  \<^item> \<open>toDegrees a\<close>: \<open>a * (180 / Math.PI)\<close>;
  \<^item> \<open>plus180 a\<close>: \<open>a + 180\<close>.
  The sums of the two convolutions and \<open>sumX * sumX + sumY * sumY\<close> are exact: their
  terms are multiples of 1/256 bounded by a few million, far inside the 53 bits of a
  double, and a blurred value (a multiple of 1/16 below 256) fits a Float32.
\<close>

record floatPrims =
  luma :: "nat \<Rightarrow> nat \<Rightarrow> nat \<Rightarrow> nat"
  sqrt32 :: "real \<Rightarrow> real"
  atan2_32 :: "real \<Rightarrow> real \<Rightarrow> real"
  toDegrees :: "real \<Rightarrow> real"
  plus180 :: "real \<Rightarrow> real"

text \<open>
  The primitives in exact real arithmetic, as one concrete choice of the parameters.
  They are not the arithmetic of the code: \<open>Math.round\<close> of a sum that is a half in
  exact arithmetic can fall on the other side in floating point, and the Float32 nearest
  to \<open>pi\<close>, converted to degrees, is slightly above 180.  No theorem below depends on
  them beyond \<open>luma 255 255 255 = 255\<close> and \<open>sqrt32 260100 = 510\<close>, which the code's
  arithmetic gives as well.
\<close>

definition exactPrims :: floatPrims where
  "exactPrims =
     \<lparr> luma = (\<lambda>r g b. nat \<lfloor>(299 * real r + 587 * real g + 114 * real b) / 1000 + 1 / 2\<rfloor>),
       sqrt32 = sqrt,
       atan2_32 = (\<lambda>y x. if 0 < x then arctan (y / x)
                           else if x < 0 \<and> 0 \<le> y then arctan (y / x) + pi
                           else if x < 0 then arctan (y / x) - pi
                           else if 0 < y then pi / 2 else if y < 0 then - pi / 2 else 0),
       toDegrees = (\<lambda>a. a * (180 / pi)),
       plus180 = (\<lambda>a. a + 180) \<rparr>"

text \<open>A read of a Uint8Array or of a Float32Array as an operand of arithmetic.\<close>

definition rdU8 :: "nat list \<Rightarrow> nat \<Rightarrow> jsnum" where
  "rdU8 xs i = (if i < length xs then Fin (real (xs ! i)) else NaN)"

definition rdF :: "jsnum list \<Rightarrow> nat \<Rightarrow> jsnum" where
  "rdF xs i = (if i < length xs then xs ! i else NaN)"

text \<open>
  \<open>for (y = 1; y < h - 1; y++) for (x = 1; x < w - 1; x++) out[y * w + x] = f(x, y)\<close>:
  the loop nest of the blur, of the gradient and of the non-maximum suppression.  A
  write past the end of a typed array is ignored, as \<open>list_update\<close> does.
\<close>

definition interior :: "nat \<Rightarrow> nat \<Rightarrow> (nat \<times> nat) list" where
  "interior w h = [(x, y). y \<leftarrow> [1..<h - 1], x \<leftarrow> [1..<w - 1]]"

definition fillInterior :: "nat \<Rightarrow> nat \<Rightarrow> (nat \<Rightarrow> nat \<Rightarrow> 'a) \<Rightarrow> 'a list \<Rightarrow> 'a list" where
  "fillInterior w h f out = foldl (\<lambda>out (x, y). out[y * w + x := f x y]) out (interior w h)"

text \<open>
  The 3x3 window in the order of the two inner loops; \<open>(ky, kx)\<close> stands for
  \<open>(ky + 1, kx + 1)\<close> of the source, so the pixel read is
  \<open>(y + ky - 1) * w + (x + kx - 1)\<close> and the kernel entry is \<open>ky * 3 + kx\<close>.
\<close>

definition window :: "(nat \<times> nat) list" where
  "window = [(ky, kx). ky \<leftarrow> [0, 1, 2], kx \<leftarrow> [0, 1, 2]]"

subsection \<open>toGrayscale (lines 4-10)\<close>

text \<open>
  \<open>gray\<close> has \<open>data.length / 4\<close> elements, rounded down.  The loop writes
  \<open>gray[i / 4]\<close> for \<open>i = 0, 4, 8, ...\<close>; a write that is in range has its three
  reads in range.
\<close>

definition toGrayscale :: "floatPrims \<Rightarrow> nat list \<Rightarrow> nat list" where
  "toGrayscale fp data =
     map (\<lambda>k. luma fp (data ! (4 * k)) (data ! (4 * k + 1)) (data ! (4 * k + 2)))
         [0..<length data div 4]"

subsection \<open>gaussianBlur (lines 13-29)\<close>

definition kernel :: "real list" where
  "kernel = [1, 2, 1, 2, 4, 2, 1, 2, 1]"

definition kSum :: real where
  "kSum = 16"

text \<open>Lines 19-25: \<open>sum / kSum\<close> at an interior pixel; the only divisor is 16.\<close>

definition blurAt :: "nat list \<Rightarrow> nat \<Rightarrow> nat \<Rightarrow> nat \<Rightarrow> jsnum" where
  "blurAt data w x y =
     jdiv (foldl (\<lambda>sum (ky, kx).
                    jadd sum (jmul (rdU8 data ((y + ky - 1) * w + (x + kx - 1)))
                                   (Fin (kernel ! (ky * 3 + kx)))))
                 (Fin 0) window)
          (Fin kSum)"

definition gaussianBlur :: "nat list \<Rightarrow> nat \<Rightarrow> nat \<Rightarrow> jsnum list" where
  "gaussianBlur data w h =
     fillInterior w h (blurAt data w) (replicate (length data) (Fin 0))"

subsection \<open>Gradient and non-maximum suppression (lines 37-107)\<close>

definition gx :: "real list" where
  "gx = [-1, 0, 1, -2, 0, 2, -1, 0, 1]"

definition gy :: "real list" where
  "gy = [-1, -2, -1, 0, 0, 0, 1, 2, 1]"

text \<open>Lines 47-56: the pair \<open>(sumX, sumY)\<close> at an interior pixel.\<close>

definition sobelAt :: "jsnum list \<Rightarrow> nat \<Rightarrow> nat \<Rightarrow> nat \<Rightarrow> jsnum \<times> jsnum" where
  "sobelAt blurred width x y =
     foldl (\<lambda>(sumX, sumY) (i, j).
              let val = rdF blurred ((y + i - 1) * width + (x + j - 1))
              in (jadd sumX (jmul val (Fin (gx ! (i * 3 + j)))),
                  jadd sumY (jmul val (Fin (gy ! (i * 3 + j))))))
           (Fin 0, Fin 0) window"

text \<open>Line 58: \<open>Math.sqrt(sumX * sumX + sumY * sumY)\<close>.\<close>

definition magnitudeAt :: "floatPrims \<Rightarrow> jsnum list \<Rightarrow> nat \<Rightarrow> nat \<Rightarrow> nat \<Rightarrow> jsnum" where
  "magnitudeAt fp blurred width x y =
     (case sobelAt blurred width x y of
        (sumX, sumY) \<Rightarrow>
          (case jadd (jmul sumX sumX) (jmul sumY sumY) of
             Fin v \<Rightarrow> Fin (sqrt32 fp v)
           | NaN \<Rightarrow> NaN))"

text \<open>Line 59: \<open>Math.atan2(sumY, sumX)\<close>.\<close>

definition directionAt :: "floatPrims \<Rightarrow> jsnum list \<Rightarrow> nat \<Rightarrow> nat \<Rightarrow> nat \<Rightarrow> jsnum" where
  "directionAt fp blurred width x y =
     (case sobelAt blurred width x y of
        (Fin sumX, Fin sumY) \<Rightarrow> Fin (atan2_32 fp sumY sumX)
      | _ \<Rightarrow> NaN)"

text \<open>Lines 67-105: the value written to \<open>nms[y * width + x]\<close>.\<close>

definition nmsAt ::
  "floatPrims \<Rightarrow> jsnum list \<Rightarrow> jsnum list \<Rightarrow> nat \<Rightarrow> nat \<Rightarrow> nat \<Rightarrow> jsnum" where
  "nmsAt fp magnitudes directions width x y =
     (let angle = rdF directions (y * width + x);
          mag = rdF magnitudes (y * width + x);
          a0 = (case angle of Fin v \<Rightarrow> Fin (toDegrees fp v) | NaN \<Rightarrow> NaN);
          a = (if jlt a0 (Fin 0)
               then (case a0 of Fin v \<Rightarrow> Fin (plus180 fp v) | NaN \<Rightarrow> NaN) else a0);
          (q, r) =
            (if (jge a (Fin 0) \<and> jlt a (Fin 22.5)) \<or> (jge a (Fin 157.5) \<and> jle a (Fin 180))
             then (rdF magnitudes (y * width + (x + 1)), rdF magnitudes (y * width + (x - 1)))
             else if jge a (Fin 22.5) \<and> jlt a (Fin 67.5)
             then (rdF magnitudes ((y + 1) * width + (x + 1)),
                   rdF magnitudes ((y - 1) * width + (x - 1)))
             else if jge a (Fin 67.5) \<and> jlt a (Fin 112.5)
             then (rdF magnitudes ((y + 1) * width + x), rdF magnitudes ((y - 1) * width + x))
             else if jge a (Fin 112.5) \<and> jlt a (Fin 157.5)
             then (rdF magnitudes ((y - 1) * width + (x + 1)),
                   rdF magnitudes ((y + 1) * width + (x - 1)))
             else (Fin 255, Fin 255))
      in if jge mag q \<and> jge mag r then mag else Fin 0)"

text \<open>
  Lines 35-107: the thinned magnitude field \<open>nms\<close> of an image.  The three arrays are
  allocated with \<open>width * height\<close> zeros and written at the interior pixels only.
\<close>

definition thinned :: "floatPrims \<Rightarrow> nat list \<Rightarrow> nat \<Rightarrow> nat \<Rightarrow> jsnum list" where
  "thinned fp data width height =
     (let gray = toGrayscale fp data;
          blurred = gaussianBlur gray width height;
          magnitudes = fillInterior width height (magnitudeAt fp blurred width)
                         (replicate (width * height) (Fin 0));
          directions = fillInterior width height (directionAt fp blurred width)
                         (replicate (width * height) (Fin 0))
      in fillInterior width height (nmsAt fp magnitudes directions width)
           (replicate (width * height) (Fin 0)))"

subsection \<open>Hysteresis thresholding (lines 109-144)\<close>

text \<open>The values 0, 1 and 2 of \<open>traceMap\<close>: none, weak, strong.\<close>

datatype mark = NONE | WEAK | STRONG

text \<open>
  Lines 115-122: the classification of every element of \<open>nms\<close>.  The state is
  \<open>traceMap\<close> and the stack, whose head is its top.  The thresholds are finite
  numbers.
\<close>

definition identify ::
  "jsnum list \<Rightarrow> nat \<Rightarrow> nat \<Rightarrow> real \<Rightarrow> real \<Rightarrow> mark list \<times> nat list" where
  "identify nms width height lowThreshold highThreshold =
     foldl (\<lambda>(traceMap, stack) i.
              if jge (nms ! i) (Fin highThreshold) then (traceMap[i := STRONG], i # stack)
              else if jge (nms ! i) (Fin lowThreshold) then (traceMap[i := WEAK], stack)
              else (traceMap, stack))
           (replicate (width * height) NONE, []) [0..<length nms]"

text \<open>
  Lines 127-135: the indices \<open>ny * width + nx\<close> of the neighbours of \<open>idx\<close> that
  lie inside the image, in the order of the two loops.
\<close>

definition neighbours :: "nat \<Rightarrow> nat \<Rightarrow> nat \<Rightarrow> nat list" where
  "neighbours width height idx =
     (let cx = int (idx mod width); cy = int (idx div width)
      in map (\<lambda>(nx, ny). nat (ny * int width + nx))
           (filter (inBounds width height)
              (map (\<lambda>(j, i). (cx + j, cy + i)) neighbourOffsets)))"

text \<open>
  Lines 137-140: a neighbour that is weak is promoted and pushed.  A read past the end
  of \<open>traceMap\<close> would be \<open>undefined\<close>, which is not \<open>=== 1\<close>.
\<close>

definition promote :: "mark list \<times> nat list \<Rightarrow> nat \<Rightarrow> mark list \<times> nat list" where
  "promote s nIdx =
     (case s of (traceMap, stack) \<Rightarrow>
        if nIdx < length traceMap \<and> traceMap ! nIdx = WEAK
        then (traceMap[nIdx := STRONG], nIdx # stack) else (traceMap, stack))"

text \<open>
  The propagation terminates: visiting a neighbour either turns a weak element strong
  and pushes it, or changes nothing, and every iteration pops one index.
\<close>

definition weakSet :: "mark list \<Rightarrow> nat set" where
  "weakSet traceMap = {i. i < length traceMap \<and> traceMap ! i = WEAK}"

lemma finite_weakSet: "finite (weakSet traceMap)"
  by (simp add: weakSet_def)

lemma promote_measure:
  "promote (tm, st) k = (tm', st') \<Longrightarrow>
     2 * card (weakSet tm') + length st' \<le> 2 * card (weakSet tm) + length st"
proof (cases "k < length tm \<and> tm ! k = WEAK")
  case True
  assume p: "promote (tm, st) k = (tm', st')"
  have tm': "tm' = tm[k := STRONG]" and st': "st' = k # st"
    using p True by (simp_all add: promote_def)
  have "weakSet tm' = weakSet tm - {k}"
    unfolding weakSet_def tm' using True by (auto simp: nth_list_update split: if_splits)
  moreover have "k \<in> weakSet tm" using True by (simp add: weakSet_def)
  ultimately have "card (weakSet tm') < card (weakSet tm)"
    using finite_weakSet by (metis card_Diff1_less)
  then show ?thesis using st' by simp
next
  case False
  assume "promote (tm, st) k = (tm', st')"
  with False show ?thesis by (auto simp: promote_def)
qed

lemma foldl_promote_measure:
  "foldl promote (tm, st) ks = (tm', st') \<Longrightarrow>
     2 * card (weakSet tm') + length st' \<le> 2 * card (weakSet tm) + length st"
proof (induction ks arbitrary: tm st)
  case Nil
  then show ?case by simp
next
  case (Cons k ks)
  obtain tm1 st1 where s: "promote (tm, st) k = (tm1, st1)"
    by (cases "promote (tm, st) k")
  from Cons.prems s have "foldl promote (tm1, st1) ks = (tm', st')" by simp
  from Cons.IH[OF this] promote_measure[OF s] show ?case by linarith
qed

text \<open>
  Lines 125-144: \<open>while (stack.length > 0)\<close>, popping \<open>idx\<close> and visiting its
  neighbours.
\<close>

function propagate :: "nat \<Rightarrow> nat \<Rightarrow> mark list \<Rightarrow> nat list \<Rightarrow> mark list" where
  "propagate width height traceMap [] = traceMap"
| "propagate width height traceMap (idx # stack) =
     (case foldl promote (traceMap, stack) (neighbours width height idx) of
        (traceMap', stack') \<Rightarrow> propagate width height traceMap' stack')"
  by pat_completeness auto
termination
proof (relation "measure (\<lambda>(width, height, traceMap, stack).
                   2 * card (weakSet traceMap) + length stack)", goal_cases)
  case 1
  show ?case by simp
next
  case (2 width height traceMap idx stack tm' st')
  from foldl_promote_measure[OF 2[symmetric]] show ?case by simp
qed

text \<open>Lines 111-144: \<open>traceMap\<close> when the stack has run empty.\<close>

definition hysteresis :: "jsnum list \<Rightarrow> nat \<Rightarrow> nat \<Rightarrow> real \<Rightarrow> real \<Rightarrow> mark list" where
  "hysteresis nms width height lowThreshold highThreshold =
     (case identify nms width height lowThreshold highThreshold of
        (traceMap, stack) \<Rightarrow> propagate width height traceMap stack)"

subsection \<open>Output and the whole function (lines 32-157)\<close>

text \<open>
  Lines 110 and 147-154: \<open>edges\<close> has the length of the input buffer, all zero, and
  receives four bytes per element of \<open>traceMap\<close>.
\<close>

definition toRGBA :: "nat \<Rightarrow> mark list \<Rightarrow> nat list" where
  "toRGBA n traceMap =
     foldl (\<lambda>edges i.
              let val = (if traceMap ! i = STRONG then 255 else 0); idx = i * 4
              in edges[idx := val, idx + 1 := val, idx + 2 := val, idx + 3 := 255])
           (replicate n 0) [0..<length traceMap]"

text \<open>An ImageData: its dimensions and its RGBA bytes.\<close>

record imageData =
  imgWidth :: nat
  imgHeight :: nat
  imgData :: "nat list"

definition cannyEdgeDetection :: "floatPrims \<Rightarrow> imageData \<Rightarrow> real \<Rightarrow> real \<Rightarrow> nat list" where
  "cannyEdgeDetection fp imageData lowThreshold highThreshold =
     (let width = imgWidth imageData; height = imgHeight imageData;
          nms = thinned fp (imgData imageData) width height;
          traceMap = hysteresis nms width height lowThreshold highThreshold
      in toRGBA (length (imgData imageData)) traceMap)"

section \<open>The pipeline (src/components/TracerPanel.tsx, lines 59-68)\<close>

text \<open>
  \<open>InvalidInput\<close> is the error the specification names; no path of the code produces
  it.  \<open>InvalidStateError\<close> and \<open>IndexSizeError\<close> are the two DOMExceptions of the
  constructor \<open>ImageData(data, sw, sh)\<close>.
\<close>

datatype error = InvalidInput | InvalidStateError | IndexSizeError

text \<open>
  \<open>new ImageData(edgeData, w, h)\<close> (line 64).  The constructor belongs to the platform,
  not to this repository; it is written here as the HTML standard defines it: the number
  of bytes must be a nonzero multiple of four, the number of pixels a multiple of
  \<open>sw\<close>, and the quotient must be \<open>sh\<close>.
\<close>

definition newImageData :: "nat list \<Rightarrow> nat \<Rightarrow> nat \<Rightarrow> error + imageData" where
  "newImageData data sw sh =
     (if length data = 0 \<or> length data mod 4 \<noteq> 0 then Inl InvalidStateError
      else if sw = 0 \<or> (length data div 4) mod sw \<noteq> 0 \<or> (length data div 4) div sw \<noteq> sh
      then Inl IndexSizeError
      else Inr \<lparr>imgWidth = sw, imgHeight = sh, imgData = data\<rparr>)"

text \<open>
  Lines 59-68 of \<open>process\<close>, from the image that \<open>getImageData(0, 0, w, h)\<close> has
  returned: \<open>cannyEdgeDetection\<close>, the construction of the output image from the mask,
  and \<open>vectoriseEdges\<close> on the mask with the dimensions of the image.  The only
  operation that can raise is the constructor: neither function of algo.ts has a
  \<open>throw\<close>, a typed-array read out of range is \<open>undefined\<close> and a write out of range
  is ignored.  \<open>putImageData\<close> (line 65) draws the output image and does not change
  the result.
\<close>

definition tracePipeline ::
  "floatPrims \<Rightarrow> imageData \<Rightarrow> real \<Rightarrow> real \<Rightarrow> real \<Rightarrow> int \<Rightarrow> error + point list list" where
  "tracePipeline fp imageData cannyLow cannyHigh simplification minPathLength =
     (let w = imgWidth imageData; h = imgHeight imageData;
          edgeData = cannyEdgeDetection fp imageData cannyLow cannyHigh
      in case newImageData edgeData w h of
           Inl e \<Rightarrow> Inl e
         | Inr outputImage \<Rightarrow> Inr (vectoriseEdges edgeData w h simplification minPathLength))"

section \<open>Notions used to state the properties\<close>

text \<open>The Chebyshev distance of two pixels; 8-connected neighbours are at distance 1.\<close>

definition chebyshev :: "point \<Rightarrow> point \<Rightarrow> int" where
  "chebyshev p q = max \<bar>fst p - fst q\<bar> \<bar>snd p - snd q\<bar>"

text \<open>Every two consecutive points of a path are at Chebyshev distance exactly 1.\<close>

fun consecutiveNeighbours :: "point list \<Rightarrow> bool" where
  "consecutiveNeighbours (p # q # path) = (chebyshev p q = 1 \<and> consecutiveNeighbours (q # path))"
| "consecutiveNeighbours _ = True"

text \<open>
  The invariant of the greedy walk, for the proof of what its path looks like.  A point
  is a dead end when every edge pixel of the image next to it has been visited.  The
  stack holds points of the path in decreasing order of their indices; a point of the
  path that is not on the stack is a dead end; and every point of the path but the
  first has an earlier neighbour such that the points in between have left the stack
  and have no neighbour in the path from that point on.
\<close>

definition deadEnd :: "nat list \<Rightarrow> nat \<Rightarrow> nat \<Rightarrow> point set \<Rightarrow> point \<Rightarrow> bool" where
  "deadEnd edgeData width height visited p =
     (\<forall>q. chebyshev p q = 1 \<and> inBounds width height q \<and> isEdge edgeData width (fst q) (snd q)
          \<longrightarrow> q \<in> visited)"

definition walkInv ::
  "nat list \<Rightarrow> nat \<Rightarrow> nat \<Rightarrow> point list \<Rightarrow> point set \<Rightarrow> point list \<Rightarrow> bool" where
  "walkInv edgeData width height stack visited path =
     (distinct path \<and> set path \<subseteq> visited \<and>
      (\<exists>ixs. stack = map (\<lambda>i. path ! i) ixs \<and> sorted_wrt (>) ixs \<and> (\<forall>i \<in> set ixs. i < length path)) \<and>
      (\<forall>k < length path. path ! k \<notin> set stack \<longrightarrow> deadEnd edgeData width height visited (path ! k)) \<and>
      (\<forall>j < length path. 0 < j \<longrightarrow>
         (\<exists>i < j. chebyshev (path ! i) (path ! j) = 1 \<and>
            (\<forall>k. i < k \<and> k < j \<longrightarrow> path ! k \<notin> set stack \<and>
               (\<forall>l < length path. chebyshev (path ! k) (path ! l) = 1 \<longrightarrow> l < j)))))"

text \<open>
  An image as \<open>getImageData\<close> returns it: positive dimensions and \<open>W * H * 4\<close> bytes.
\<close>

definition wellFormed :: "imageData \<Rightarrow> bool" where
  "wellFormed imageData =
     (length (imgData imageData) = imgWidth imageData * imgHeight imageData * 4 \<and>
      0 < imgWidth imageData \<and> 0 < imgHeight imageData)"

text \<open>A buffer cut or padded with zeros to \<open>n\<close> bytes.\<close>

definition fitBuffer :: "nat \<Rightarrow> nat list \<Rightarrow> nat list" where
  "fitBuffer n buffer = take n buffer @ replicate (n - length buffer) 0"


text \<open>
  Test masks, RGBA, four bytes per pixel.  \<open>forkMask\<close> is 3 wide and 2 high with the
  edge pixels (1,0), (0,1) and (2,1); \<open>lineMask\<close> is 3 wide and 1 high, all edge;
  \<open>dotMask\<close> is a single edge pixel.
\<close>

definition forkMask :: "nat list" where
  "forkMask = [0, 0, 0, 255,  255, 255, 255, 255,  0, 0, 0, 255,
               255, 255, 255, 255,  0, 0, 0, 255,  255, 255, 255, 255]"

definition lineMask :: "nat list" where
  "lineMask = [255, 255, 255, 255,  255, 255, 255, 255,  255, 255, 255, 255]"

definition dotMask :: "nat list" where
  "dotMask = [255, 255, 255, 255]"

text \<open>An all-white image, 4 wide and 3 high: 48 bytes of 255.\<close>

definition whiteImage :: "nat list" where
  "whiteImage = replicate 48 255"

text \<open>The pixel \<open>(x, y)\<close> lies in row 0, row H-1, column 0 or column W-1 of the image.\<close>

definition onBorder :: "nat \<Rightarrow> nat \<Rightarrow> nat \<Rightarrow> nat \<Rightarrow> bool" where
  "onBorder w h x y = (x < w \<and> y < h \<and> (x = 0 \<or> x = w - 1 \<or> y = 0 \<or> y = h - 1))"

text \<open>
  Two distinct pixels of the image, given by their indices \<open>y * width + x\<close>, are
  8-adjacent: their columns and their rows differ by at most 1.
\<close>

definition adjacent :: "nat \<Rightarrow> nat \<Rightarrow> nat \<Rightarrow> nat \<Rightarrow> bool" where
  "adjacent width height a b =
     (a < width * height \<and> b < width * height \<and> a \<noteq> b \<and>
      \<bar>int (a mod width) - int (b mod width)\<bar> \<le> 1 \<and>
      \<bar>int (a div width) - int (b div width)\<bar> \<le> 1)"

text \<open>One link of a chain: two 8-adjacent pixels, both of thinned magnitude at least \<open>low\<close>.\<close>

definition weakLink :: "jsnum list \<Rightarrow> nat \<Rightarrow> nat \<Rightarrow> real \<Rightarrow> nat \<Rightarrow> nat \<Rightarrow> bool" where
  "weakLink nms width height low a b =
     (adjacent width height a b \<and> jge (nms ! a) (Fin low) \<and> jge (nms ! b) (Fin low))"

text \<open>
  Pixel \<open>i\<close> is joined by a chain of such links (possibly of length 0) to a pixel of
  thinned magnitude at least \<open>high\<close>.
\<close>

definition connectedToStrong ::
  "jsnum list \<Rightarrow> nat \<Rightarrow> nat \<Rightarrow> real \<Rightarrow> real \<Rightarrow> nat \<Rightarrow> bool" where
  "connectedToStrong nms width height low high i =
     (\<exists>s < width * height. jge (nms ! s) (Fin high) \<and> (weakLink nms width height low)\<^sup>*\<^sup>* s i)"

text \<open>The invariant of the propagation loop, for the proof of its result.\<close>

definition hystInv ::
  "jsnum list \<Rightarrow> nat \<Rightarrow> nat \<Rightarrow> real \<Rightarrow> real \<Rightarrow> mark list \<Rightarrow> nat list \<Rightarrow> bool" where
  "hystInv nms width height low high traceMap stack =
     (length traceMap = width * height \<and>
      (\<forall>i < width * height. (traceMap ! i \<noteq> NONE) = jge (nms ! i) (Fin low)) \<and>
      (\<forall>i < width * height. traceMap ! i = STRONG \<longrightarrow>
           connectedToStrong nms width height low high i) \<and>
      (\<forall>i < width * height. jge (nms ! i) (Fin high) \<longrightarrow> traceMap ! i = STRONG) \<and>
      (\<forall>i < width * height. traceMap ! i = STRONG \<and> i \<notin> set stack \<longrightarrow>
           (\<forall>b. adjacent width height i b \<longrightarrow> traceMap ! b \<noteq> WEAK)) \<and>
      (\<forall>i \<in> set stack. i < width * height \<and> traceMap ! i = STRONG))"

section \<open>Properties of the vectorizer\<close>

subsection \<open>The greedy walk\<close>

lemma walk_extends:
  "walk E w h st vis path = (vis', path') \<Longrightarrow>
     \<exists>new. path' = path @ new \<and> distinct new \<and> set new \<inter> vis = {} \<and> vis' = vis \<union> set new"
proof (induction E w h st vis path rule: walk.induct)
  case (1 E w h vis path)
  then show ?case by simp
next
  case (2 E w h cur st vis path)
  show ?case
  proof (cases "findNext E w h vis cur")
    case None
    with 2 show ?thesis by simp
  next
    case (Some n)
    with 2 obtain new where new: "path' = (path @ [n]) @ new" "distinct new"
      "set new \<inter> insert n vis = {}" "vis' = insert n vis \<union> set new"
      by fastforce
    have "n \<notin> vis" using findNext_Some(2)[OF Some] .
    with new have "path' = path @ (n # new) \<and> distinct (n # new) \<and> set (n # new) \<inter> vis = {}
       \<and> vis' = vis \<union> set (n # new)"
      by auto
    then show ?thesis by blast
  qed
qed

lemma walk_start:
  assumes "walk E w h [p] (insert p vis) [p] = (vis', path)" "p \<notin> vis"
  shows "distinct path" "set path \<inter> vis = {}" "vis' = vis \<union> set path" "path \<noteq> []" "hd path = p"
proof -
  obtain new where new: "path = [p] @ new" "distinct new" "set new \<inter> insert p vis = {}"
     "vis' = insert p vis \<union> set new"
    using walk_extends[OF assms(1)] by blast
  show "distinct path" using new by auto
  show "set path \<inter> vis = {}" using new assms(2) by auto
  show "vis' = vis \<union> set path" using new by auto
  show "path \<noteq> []" using new by simp
  show "hd path = p" using new by simp
qed

lemma traceLoop_filter:
  "traceLoop E w h m ps vis paths =
     paths @ filter (\<lambda>p. int (length p) > m) (completedWalks E w h ps vis)"
  by (induction ps arbitrary: vis paths) (auto split: prod.splits)

lemma completedWalks_distinct:
  "distinct (concat (completedWalks E w h ps vis)) \<and>
   set (concat (completedWalks E w h ps vis)) \<inter> vis = {}"
proof (induction ps arbitrary: vis)
  case Nil
  then show ?case by simp
next
  case (Cons p ps)
  show ?case
  proof (cases "p \<in> vis")
    case True
    then show ?thesis using Cons.IH[of vis] by simp
  next
    case False
    obtain vis' path where w: "walk E w h [p] (insert p vis) [p] = (vis', path)"
      by (cases "walk E w h [p] (insert p vis) [p]")
    note s = walk_start[OF w False]
    have ih: "distinct (concat (completedWalks E w h ps vis'))"
      "set (concat (completedWalks E w h ps vis')) \<inter> vis' = {}"
      using Cons.IH[of vis'] by blast+
    have eq: "completedWalks E w h (p # ps) vis = path # completedWalks E w h ps vis'"
      using False w by simp
    show ?thesis unfolding eq using s(1,2,3) ih by auto
  qed
qed


lemma strideLoop_unfold:
  "i < n \<Longrightarrow> 0 < s \<Longrightarrow> strideLoop n s i acc = strideLoop n s (i + s) (acc @ [i])"
  by (subst strideLoop.simps) simp

lemma strideLoop_done:
  assumes "\<not> (i < n \<and> 0 < s)"
  shows "strideLoop n s i acc = acc"
proof -
  have "strideLoop n s i acc =
          (if i < n \<and> 0 < s then strideLoop n s (i + s) (acc @ [i]) else acc)"
    by (rule strideLoop.simps)
  also have "\<dots> = acc" using assms by (rule if_not_P)
  finally show ?thesis .
qed

lemma sorted_wrt_less_last:
  "sorted_wrt (<) xs \<Longrightarrow> x \<in> set xs \<Longrightarrow> (x::nat) \<le> last xs"
  by (induction xs) (auto simp: less_imp_le)

lemma strideLoop_append:
  "strideLoop n s i (acc @ acc') = acc @ strideLoop n s i acc'"
proof (induction n s i acc' arbitrary: acc rule: strideLoop.induct)
  case (1 n s i acc')
  show ?case
  proof (cases "i < n \<and> 0 < s")
    case True
    have "strideLoop n s i (acc @ acc') = strideLoop n s (i + s) (acc @ (acc' @ [i]))"
      using True by (simp add: strideLoop_unfold)
    also have "\<dots> = acc @ strideLoop n s (i + s) (acc' @ [i])"
      using 1[OF True] .
    also have "strideLoop n s (i + s) (acc' @ [i]) = strideLoop n s i acc'"
      using True by (simp add: strideLoop_unfold)
    finally show ?thesis .
  next
    case False
    then show ?thesis by (simp add: strideLoop_done)
  qed
qed

lemma strideLoop_step:
  assumes "i < n" "0 < s"
  shows "strideLoop n s i [] = i # strideLoop n s (i + s) []"
proof -
  have "strideLoop n s i [] = strideLoop n s (i + s) ([i] @ [])"
    using assms by (simp add: strideLoop_unfold)
  then show ?thesis by (simp only: strideLoop_append) simp
qed

lemma strideLoop_bounds:
  "j \<in> set (strideLoop n s i acc) \<Longrightarrow> j \<in> set acc \<or> (i \<le> j \<and> j < n)"
proof (induction n s i acc rule: strideLoop.induct)
  case (1 n s i acc)
  show ?case
  proof (cases "i < n \<and> 0 < s")
    case True
    then have "j \<in> set (strideLoop n s (i + s) (acc @ [i]))"
      using 1(2) by (simp add: strideLoop_unfold)
    from 1(1)[OF True this] True show ?thesis by auto
  next
    case False
    then show ?thesis using 1(2) by (simp add: strideLoop_done)
  qed
qed

lemma strideLoop_increasing:
  "sorted_wrt (<) acc \<Longrightarrow> \<forall>a \<in> set acc. a < i \<Longrightarrow> sorted_wrt (<) (strideLoop n s i acc)"
proof (induction n s i acc rule: strideLoop.induct)
  case (1 n s i acc)
  show ?case
  proof (cases "i < n \<and> 0 < s")
    case True
    have a: "sorted_wrt (<) (acc @ [i])"
      using 1(2,3) by (simp add: sorted_wrt_append)
    have b: "\<forall>a \<in> set (acc @ [i]). a < i + s"
      using 1(3) True by auto
    show ?thesis using 1(1)[OF True a b] True by (simp add: strideLoop_unfold)
  next
    case False
    then show ?thesis using 1(2) by (simp add: strideLoop_done)
  qed
qed

lemma length_ge_2_if_ends_differ:
  "xs \<noteq> [] \<Longrightarrow> hd xs \<noteq> last xs \<Longrightarrow> 2 \<le> length xs"
proof (cases xs)
  case Nil
  assume "xs \<noteq> []"
  with Nil show ?thesis by simp
next
  case (Cons a ys)
  assume "hd xs \<noteq> last xs"
  with Cons show ?thesis by (cases ys) auto
qed


lemma simplifyPath_indices:
  assumes "2 \<le> length path" "0 < stride"
  shows "\<exists>idx. simplifyPath stride path = map (\<lambda>i. path ! i) idx \<and> sorted_wrt (<) idx \<and>
            (\<forall>i \<in> set idx. i < length path) \<and> hd idx = 0 \<and> last idx = length path - 1 \<and>
            2 \<le> length idx"
proof -
  define n where "n = length path"
  define sp where "sp = strideLoop n stride 0 []"
  define idx where "idx = (if last sp \<noteq> n - 1 then sp @ [n - 1] else sp)"
  have n2: "2 \<le> n" using assms(1) by (simp add: n_def)
  have step: "sp = 0 # strideLoop n stride (0 + stride) []"
    unfolding sp_def using n2 assms(2) by (intro strideLoop_step) auto
  have ne: "sp \<noteq> []" using step by simp
  have bnd: "\<forall>i \<in> set sp. i < n"
    unfolding sp_def using strideLoop_bounds[of _ n stride 0 "[]"] by auto
  have inc: "sorted_wrt (<) sp"
    unfolding sp_def by (rule strideLoop_increasing) simp_all
  have lastb: "last sp < n" using bnd ne last_in_set by blast
  have 1: "simplifyPath stride path = map (\<lambda>i. path ! i) idx"
    using assms(1) by (simp add: simplifyPath_def Let_def idx_def sp_def n_def)
  have 2: "sorted_wrt (<) idx"
  proof (cases "last sp \<noteq> n - 1")
    case True
    then have "last sp < n - 1" using lastb by linarith
    moreover have "\<forall>i \<in> set sp. i \<le> last sp"
      using inc sorted_wrt_less_last by blast
    ultimately have "\<forall>i \<in> set sp. i < n - 1" by fastforce
    then show ?thesis using inc True by (simp add: idx_def sorted_wrt_append)
  next
    case False
    then show ?thesis using inc by (simp add: idx_def)
  qed
  have 3: "\<forall>i \<in> set idx. i < n" using bnd n2 by (simp add: idx_def)
  have 4: "hd idx = 0" using step by (simp add: idx_def)
  have 5: "last idx = n - 1" by (simp add: idx_def)
  have ne': "idx \<noteq> []" using ne by (simp add: idx_def)
  have "hd idx \<noteq> last idx" using 4 5 n2 by linarith
  with ne' have 6: "2 \<le> length idx" by (rule length_ge_2_if_ends_differ)
  show ?thesis using 1 2 3 4 5 6 unfolding n_def by blast
qed

lemma abs_le_one_int: "\<bar>j\<bar> \<le> 1 \<longleftrightarrow> j = -1 \<or> j = 0 \<or> j = (1::int)"
  by arith

lemma offsets_iff:
  "(j, i) \<in> set neighbourOffsets \<longleftrightarrow> \<bar>j\<bar> \<le> 1 \<and> \<bar>i\<bar> \<le> 1 \<and> \<not> (j = 0 \<and> i = 0)"
  unfolding abs_le_one_int by (auto simp: neighbourOffsets_def)

lemma index_bound:
  fixes w h :: nat
  assumes "x < w" "y < h"
  shows "y * w + x < w * h"
proof -
  have "y * w + x < y * w + w" using assms(1) by simp
  also have "\<dots> = (Suc y) * w" by simp
  also have "\<dots> \<le> h * w" using assms(2) by (intro mult_le_mono1) simp
  finally show ?thesis by (simp add: mult.commute)
qed

lemma offset_chebyshev:
  "n \<in> set (map (\<lambda>(dx, dy). (fst cur + dx, snd cur + dy)) neighbourOffsets) \<Longrightarrow> chebyshev cur n = 1"
  by (auto simp: neighbourOffsets_def chebyshev_def)

lemma completedWalks_all: "completedWalks E w h ps vis = traceLoop E w h (- 1) ps vis []"
proof -
  have "(\<lambda>p::point list. - 1 < int (length p)) = (\<lambda>p. True)" by auto
  then show ?thesis by (simp add: traceLoop_filter)
qed

lemma rawPaths_sub: "set (rawPaths E w h m) \<subseteq> set (completedWalks E w h (edgePixels E w h) {})"
  by (simp add: rawPaths_def traceLoop_filter)

text \<open>The walk keeps its invariant, from the start to the empty stack.\<close>

lemma neighbour_points_iff:
  "q \<in> set (map (\<lambda>(dx, dy). (fst p + dx, snd p + dy)) neighbourOffsets) \<longleftrightarrow> chebyshev p q = 1"
proof
  assume "q \<in> set (map (\<lambda>(dx, dy). (fst p + dx, snd p + dy)) neighbourOffsets)"
  then show "chebyshev p q = 1" by (rule offset_chebyshev)
next
  assume c: "chebyshev p q = 1"
  define dx dy where "dx = fst q - fst p" and "dy = snd q - snd p"
  have "\<bar>dx\<bar> \<le> 1" "\<bar>dy\<bar> \<le> 1" "\<not> (dx = 0 \<and> dy = 0)"
    using c unfolding chebyshev_def dx_def dy_def by linarith+
  then have "(dx, dy) \<in> set neighbourOffsets" by (simp add: offsets_iff)
  moreover have "q = (\<lambda>(dx, dy). (fst p + dx, snd p + dy)) (dx, dy)"
    by (simp add: dx_def dy_def)
  ultimately show "q \<in> set (map (\<lambda>(dx, dy). (fst p + dx, snd p + dy)) neighbourOffsets)"
    unfolding set_map by (metis (no_types, lifting) image_eqI)
qed

lemma findNext_None:
  assumes "findNext E w h vis cur = None"
  shows "deadEnd E w h vis cur"
  using assms unfolding deadEnd_def findNext_def find_None_iff neighbour_points_iff[symmetric]
  by blast

lemma deadEnd_mono: "deadEnd E w h vis p \<Longrightarrow> vis \<subseteq> vis' \<Longrightarrow> deadEnd E w h vis' p"
  unfolding deadEnd_def by blast

lemma walkInv_init: "walkInv E w h [p] (insert p vis) [p]"
proof -
  have "[p] = map (\<lambda>i. [p] ! i) [0] \<and> sorted_wrt (>) [0::nat] \<and> (\<forall>i \<in> set [0::nat]. i < length [p])"
    by simp
  then have "\<exists>ixs. [p] = map (\<lambda>i. [p] ! i) ixs \<and> sorted_wrt (>) ixs \<and> (\<forall>i \<in> set ixs. i < length [p])"
    by (rule exI)
  then show ?thesis unfolding walkInv_def by simp
qed

lemma walkInvD:
  assumes "walkInv E w h st vis path"
  shows "distinct path" "set path \<subseteq> vis"
    "\<exists>ixs. st = map (\<lambda>i. path ! i) ixs \<and> sorted_wrt (>) ixs \<and> (\<forall>i \<in> set ixs. i < length path)"
    "\<forall>k < length path. path ! k \<notin> set st \<longrightarrow> deadEnd E w h vis (path ! k)"
    "\<forall>j < length path. 0 < j \<longrightarrow>
         (\<exists>i < j. chebyshev (path ! i) (path ! j) = 1 \<and>
            (\<forall>k. i < k \<and> k < j \<longrightarrow> path ! k \<notin> set st \<and>
               (\<forall>l < length path. chebyshev (path ! k) (path ! l) = 1 \<longrightarrow> l < j)))"
proof -
  note a = assms[unfolded walkInv_def]
  show "distinct path" by (rule a[THEN conjunct1])
  show "set path \<subseteq> vis" by (rule a[THEN conjunct2, THEN conjunct1])
  show "\<exists>ixs. st = map (\<lambda>i. path ! i) ixs \<and> sorted_wrt (>) ixs \<and> (\<forall>i \<in> set ixs. i < length path)"
    by (rule a[THEN conjunct2, THEN conjunct2, THEN conjunct1])
  show "\<forall>k < length path. path ! k \<notin> set st \<longrightarrow> deadEnd E w h vis (path ! k)"
    by (rule a[THEN conjunct2, THEN conjunct2, THEN conjunct2, THEN conjunct1])
  show "\<forall>j < length path. 0 < j \<longrightarrow>
         (\<exists>i < j. chebyshev (path ! i) (path ! j) = 1 \<and>
            (\<forall>k. i < k \<and> k < j \<longrightarrow> path ! k \<notin> set st \<and>
               (\<forall>l < length path. chebyshev (path ! k) (path ! l) = 1 \<longrightarrow> l < j)))"
    by (rule a[THEN conjunct2, THEN conjunct2, THEN conjunct2, THEN conjunct2])
qed

lemma walkInv_pop:
  assumes inv: "walkInv E w h (cur # st) vis path" and f: "findNext E w h vis cur = None"
  shows "walkInv E w h st vis path"
proof -
  note d = walkInvD(1)[OF inv] and s = walkInvD(2)[OF inv]
    and dead = walkInvD(4)[OF inv, rule_format] and link = walkInvD(5)[OF inv, rule_format]
  obtain ixs where st: "cur # st = map (\<lambda>i. path ! i) ixs" "sorted_wrt (>) ixs"
      "\<forall>i \<in> set ixs. i < length path"
    using walkInvD(3)[OF inv] by (elim exE conjE)
  obtain i0 ixs' where ixs: "ixs = i0 # ixs'" using st(1) by (cases "ixs") auto
  have 3: "\<exists>ixs. st = map (\<lambda>i. path ! i) ixs \<and> sorted_wrt (>) ixs \<and> (\<forall>i \<in> set ixs. i < length path)"
    using st ixs by (intro exI[of _ ixs']) auto
  have 4: "\<forall>k < length path. path ! k \<notin> set st \<longrightarrow> deadEnd E w h vis (path ! k)"
  proof (intro allI impI)
    fix k assume k: "k < length path" "path ! k \<notin> set st"
    show "deadEnd E w h vis (path ! k)"
    proof (cases "path ! k = cur")
      case True
      then show ?thesis using findNext_None[OF f] by simp
    next
      case False
      then show ?thesis using dead[OF k(1)] k(2) by simp
    qed
  qed
  have 5: "\<forall>j < length path. 0 < j \<longrightarrow>
         (\<exists>i < j. chebyshev (path ! i) (path ! j) = 1 \<and>
            (\<forall>k. i < k \<and> k < j \<longrightarrow> path ! k \<notin> set st \<and>
               (\<forall>l < length path. chebyshev (path ! k) (path ! l) = 1 \<longrightarrow> l < j)))"
  proof (intro allI impI)
    fix j assume j: "j < length path" "0 < j"
    from link[OF j] obtain i where i: "i < j" "chebyshev (path ! i) (path ! j) = 1"
      "\<forall>k. i < k \<and> k < j \<longrightarrow> path ! k \<notin> set (cur # st) \<and>
               (\<forall>l < length path. chebyshev (path ! k) (path ! l) = 1 \<longrightarrow> l < j)"
      by blast
    from i(3) have "\<forall>k. i < k \<and> k < j \<longrightarrow> path ! k \<notin> set st \<and>
               (\<forall>l < length path. chebyshev (path ! k) (path ! l) = 1 \<longrightarrow> l < j)"
      by simp
    with i(1,2) show "\<exists>i < j. chebyshev (path ! i) (path ! j) = 1 \<and>
            (\<forall>k. i < k \<and> k < j \<longrightarrow> path ! k \<notin> set st \<and>
               (\<forall>l < length path. chebyshev (path ! k) (path ! l) = 1 \<longrightarrow> l < j))"
      by blast
  qed
  show ?thesis unfolding walkInv_def using d s 3 4 5 by blast
qed

lemma walkInv_push:
  assumes inv: "walkInv E w h (cur # st) vis path" and f: "findNext E w h vis cur = Some n"
  shows "walkInv E w h (n # cur # st) (insert n vis) (path @ [n])"
proof -
  let ?path = "path @ [n]"
  let ?m = "length path"
  note d = walkInvD(1)[OF inv] and s = walkInvD(2)[OF inv]
    and dead = walkInvD(4)[OF inv, rule_format] and link = walkInvD(5)[OF inv, rule_format]
  obtain ixs where st: "cur # st = map (\<lambda>i. path ! i) ixs" "sorted_wrt (>) ixs"
      "\<forall>i \<in> set ixs. i < length path"
    using walkInvD(3)[OF inv] by (elim exE conjE)
  have nv: "n \<notin> vis" and nb: "inBounds w h n" and ne: "isEdge E w (fst n) (snd n)"
    and nc: "chebyshev cur n = 1"
    using findNext_Some[OF f] offset_chebyshev by blast+
  have np: "n \<notin> set path" using nv s by blast
  have old: "\<And>k. k < ?m \<Longrightarrow> ?path ! k = path ! k" by (simp add: nth_append)
  have new: "?path ! ?m = n" by simp
  obtain i0 ixs' where ixs: "ixs = i0 # ixs'" using st(1) by (cases "ixs") auto
  have i0: "i0 < ?m" "path ! i0 = cur" "\<forall>i \<in> set ixs'. i < i0"
    using st ixs by auto
  \<comment> \<open>a dead end ixs not a neighbour of the new point\<close>
  have notadj: "\<And>k. k < ?m \<Longrightarrow> path ! k \<notin> set (cur # st) \<Longrightarrow> chebyshev (path ! k) n \<noteq> 1"
  proof
    fix k assume k: "k < ?m" "path ! k \<notin> set (cur # st)" and c: "chebyshev (path ! k) n = 1"
    have "n \<in> vis" using dead[OF k] c nb ne unfolding deadEnd_def by blast
    with nv show False by simp
  qed
  \<comment> \<open>the points above the top of the stack are not on the stack\<close>
  have above: "\<And>k. i0 < k \<Longrightarrow> k < ?m \<Longrightarrow> path ! k \<notin> set (cur # st)"
  proof
    fix k assume k: "i0 < k" "k < ?m" and m: "path ! k \<in> set (cur # st)"
    then obtain i where i: "i \<in> set ixs" "path ! k = path ! i"
      using st(1) by auto
    have "i < ?m" using i(1) st(3) by simp
    then have "k = i" using d k(2) i(2) by (simp add: nth_eq_iff_index_eq)
    moreover have "i \<le> i0" using i(1) ixs i0(3) by auto
    ultimately show False using k(1) by simp
  qed
  have 1: "distinct ?path" using d np by simp
  have 2: "set ?path \<subseteq> insert n vis" using s by auto
  have 3: "\<exists>ixs. n # cur # st = map (\<lambda>i. ?path ! i) ixs \<and> sorted_wrt (>) ixs \<and>
             (\<forall>i \<in> set ixs. i < length ?path)"
  proof (intro exI[of _ "?m # ixs"] conjI)
    have "map (\<lambda>i. ?path ! i) ixs = map (\<lambda>i. path ! i) ixs"
      using st(3) by (intro map_cong) (simp_all add: nth_append)
    then show "n # cur # st = map (\<lambda>i. ?path ! i) (?m # ixs)" using st(1) by simp
    show "sorted_wrt (>) (?m # ixs)" using st(2,3) by auto
    show "\<forall>i \<in> set (?m # ixs). i < length ?path" using st(3) by auto
  qed
  have 4: "\<forall>k < length ?path. ?path ! k \<notin> set (n # cur # st) \<longrightarrow>
             deadEnd E w h (insert n vis) (?path ! k)"
  proof (intro allI impI)
    fix k assume k: "k < length ?path" "?path ! k \<notin> set (n # cur # st)"
    have "k \<noteq> ?m" using k(2) new by auto
    then have km: "k < ?m" using k(1) by simp
    then have "path ! k \<notin> set (cur # st)" using k(2) old by auto
    then have "deadEnd E w h vis (path ! k)" using dead km by blast
    then show "deadEnd E w h (insert n vis) (?path ! k)"
      using old[OF km] deadEnd_mono by (metis subset_insertI)
  qed
  have 5: "\<forall>j < length ?path. 0 < j \<longrightarrow>
         (\<exists>i < j. chebyshev (?path ! i) (?path ! j) = 1 \<and>
            (\<forall>k. i < k \<and> k < j \<longrightarrow> ?path ! k \<notin> set (n # cur # st) \<and>
               (\<forall>l < length ?path. chebyshev (?path ! k) (?path ! l) = 1 \<longrightarrow> l < j)))"
  proof (intro allI impI)
    fix j assume j: "j < length ?path" "0 < j"
    show "\<exists>i < j. chebyshev (?path ! i) (?path ! j) = 1 \<and>
            (\<forall>k. i < k \<and> k < j \<longrightarrow> ?path ! k \<notin> set (n # cur # st) \<and>
               (\<forall>l < length ?path. chebyshev (?path ! k) (?path ! l) = 1 \<longrightarrow> l < j))"
    proof (cases "j < ?m")
      case True
      from link[OF True j(2)] obtain i where i: "i < j" "chebyshev (path ! i) (path ! j) = 1"
        "\<And>k. i < k \<Longrightarrow> k < j \<Longrightarrow> path ! k \<notin> set (cur # st)"
        "\<And>k l. i < k \<Longrightarrow> k < j \<Longrightarrow> l < ?m \<Longrightarrow> chebyshev (path ! k) (path ! l) = 1 \<Longrightarrow> l < j"
        by blast
      have a: "chebyshev (?path ! i) (?path ! j) = 1"
        using i(1,2) True by (simp add: nth_append)
      have b: "\<forall>k. i < k \<and> k < j \<longrightarrow> ?path ! k \<notin> set (n # cur # st) \<and>
               (\<forall>l < length ?path. chebyshev (?path ! k) (?path ! l) = 1 \<longrightarrow> l < j)"
      proof (intro allI impI, elim conjE)
        fix k assume k: "i < k" "k < j"
        have km: "k < ?m" using k(2) True by simp
        have ns: "path ! k \<notin> set (cur # st)" using i(3)[OF k] .
        have "path ! k \<noteq> n" using np km by (metis nth_mem)
        then have x: "?path ! k \<notin> set (n # cur # st)" using ns old[OF km] by simp
        have y: "\<forall>l < length ?path. chebyshev (?path ! k) (?path ! l) = 1 \<longrightarrow> l < j"
        proof (intro allI impI)
          fix l assume l: "l < length ?path" "chebyshev (?path ! k) (?path ! l) = 1"
          show "l < j"
          proof (cases "l < ?m")
            case True
            then show ?thesis using i(4)[OF k True] l(2) old[OF km] old[OF True] by simp
          next
            case False
            then have "l = ?m" using l(1) by simp
            then have "chebyshev (path ! k) n = 1" using l(2) old[OF km] by simp
            then show ?thesis using notadj[OF km ns] by simp
          qed
        qed
        show "?path ! k \<notin> set (n # cur # st) \<and>
               (\<forall>l < length ?path. chebyshev (?path ! k) (?path ! l) = 1 \<longrightarrow> l < j)"
          using x y by blast
      qed
      show ?thesis using i(1) a b by blast
    next
      case False
      then have jm: "j = ?m" using j(1) by simp
      have a: "chebyshev (?path ! i0) (?path ! j) = 1"
        using i0(1,2) nc jm by (simp add: nth_append)
      have b: "\<forall>k. i0 < k \<and> k < j \<longrightarrow> ?path ! k \<notin> set (n # cur # st) \<and>
               (\<forall>l < length ?path. chebyshev (?path ! k) (?path ! l) = 1 \<longrightarrow> l < j)"
      proof (intro allI impI, elim conjE)
        fix k assume k: "i0 < k" "k < j"
        have km: "k < ?m" using k(2) jm by simp
        have ns: "path ! k \<notin> set (cur # st)" using above[OF k(1) km] .
        have "path ! k \<noteq> n" using np km by (metis nth_mem)
        then have x: "?path ! k \<notin> set (n # cur # st)" using ns old[OF km] by simp
        have y: "\<forall>l < length ?path. chebyshev (?path ! k) (?path ! l) = 1 \<longrightarrow> l < j"
        proof (intro allI impI)
          fix l assume l: "l < length ?path" "chebyshev (?path ! k) (?path ! l) = 1"
          show "l < j"
          proof (cases "l < ?m")
            case True
            then show ?thesis using jm by simp
          next
            case False
            then have "l = ?m" using l(1) by simp
            then have "chebyshev (path ! k) n = 1" using l(2) old[OF km] by simp
            then show ?thesis using notadj[OF km ns] by simp
          qed
        qed
        show "?path ! k \<notin> set (n # cur # st) \<and>
               (\<forall>l < length ?path. chebyshev (?path ! k) (?path ! l) = 1 \<longrightarrow> l < j)"
          using x y by blast
      qed
      show ?thesis using i0(1) jm a b by blast
    qed
  qed
  show ?thesis unfolding walkInv_def using 1 2 3 4 5 by blast
qed

lemma walkInv_walk:
  "walkInv E w h st vis path \<Longrightarrow> walk E w h st vis path = (vis', path') \<Longrightarrow>
     walkInv E w h [] vis' path'"
proof (induction E w h st vis path rule: walk.induct)
  case (1 E w h vis path)
  then show ?case by simp
next
  case (2 E w h cur st vis path)
  show ?case
  proof (cases "findNext E w h vis cur")
    case None
    have "walkInv E w h st vis path" using "2.prems"(1) None by (rule walkInv_pop)
    moreover have "walk E w h st vis path = (vis', path')" using "2.prems"(2) None by simp
    ultimately show ?thesis by (rule "2.IH"(1)[OF None])
  next
    case (Some n)
    have "walkInv E w h (n # cur # st) (insert n vis) (path @ [n])"
      using "2.prems"(1) Some by (rule walkInv_push)
    moreover have "walk E w h (n # cur # st) (insert n vis) (path @ [n]) = (vis', path')"
      using "2.prems"(2) Some by simp
    ultimately show ?thesis by (rule "2.IH"(2)[OF Some])
  qed
qed

lemma walkInv_links:
  assumes inv: "walkInv E w h [] vis path" and j: "j < length path" "0 < j"
  shows "\<exists>i < j. chebyshev (path ! i) (path ! j) = 1 \<and>
            (\<forall>k. i < k \<and> k < j \<longrightarrow>
               (\<forall>l < length path. chebyshev (path ! k) (path ! l) = 1 \<longrightarrow> l < j))"
proof -
  note e = walkInvD(5)[OF inv, rule_format, OF j]
  then obtain i where i: "i < j" "chebyshev (path ! i) (path ! j) = 1"
    "\<forall>k. i < k \<and> k < j \<longrightarrow> path ! k \<notin> set [] \<and>
               (\<forall>l < length path. chebyshev (path ! k) (path ! l) = 1 \<longrightarrow> l < j)"
    by (elim exE conjE)
  from i(3) have "\<forall>k. i < k \<and> k < j \<longrightarrow>
               (\<forall>l < length path. chebyshev (path ! k) (path ! l) = 1 \<longrightarrow> l < j)"
    by simp
  with i(1,2) show ?thesis by (intro exI[of _ i] conjI)
qed

lemma completedWalks_backtrack:
  assumes "path \<in> set (completedWalks E w h ps vis)" "0 < j" "j < length path"
  shows "\<exists>i < j. chebyshev (path ! i) (path ! j) = 1 \<and>
            (\<forall>k. i < k \<and> k < j \<longrightarrow>
               (\<forall>l < length path. chebyshev (path ! k) (path ! l) = 1 \<longrightarrow> l < j))"
  using assms(1)
proof (induction ps arbitrary: vis)
  case Nil
  then show ?case by simp
next
  case (Cons p ps)
  show ?case
  proof (cases "p \<in> vis")
    case True
    with Cons show ?thesis by simp
  next
    case False
    obtain vis' path0 where w: "walk E w h [p] (insert p vis) [p] = (vis', path0)"
      by (cases "walk E w h [p] (insert p vis) [p]")
    have eq: "completedWalks E w h (p # ps) vis = path0 # completedWalks E w h ps vis'"
      using False w by simp
    show ?thesis
    proof (cases "path = path0")
      case True
      have "walkInv E w h [] vis' path" using walkInv_walk[OF walkInv_init w] True by simp
      then show ?thesis using assms(3,2) by (rule walkInv_links)
    next
      case False
      with Cons.prems eq have "path \<in> set (completedWalks E w h ps vis')" by simp
      then show ?thesis by (rule Cons.IH)
    qed
  qed
qed

subsection \<open>Simplification\<close>

lemma strideOf_pos: "0 < strideOf s"
  by (simp add: strideOf_def)

lemma simplifyPath_short: "length path < 2 \<Longrightarrow> simplifyPath stride path = []"
  by (simp add: simplifyPath_def)

lemma simplifyPath_ends:
  assumes "2 \<le> length path" "0 < stride"
  shows "hd (simplifyPath stride path) = hd path" "last (simplifyPath stride path) = last path"
    "2 \<le> length (simplifyPath stride path)"
proof -
  obtain idx where idx: "simplifyPath stride path = map (\<lambda>i. path ! i) idx"
    "\<forall>i \<in> set idx. i < length path" "hd idx = 0" "last idx = length path - 1" "2 \<le> length idx"
    using simplifyPath_indices[OF assms] by blast
  have ne: "idx \<noteq> []" "path \<noteq> []" using idx(5) assms(1) by auto
  show "hd (simplifyPath stride path) = hd path"
    using idx(1,3) ne by (simp add: hd_map hd_conv_nth)
  show "last (simplifyPath stride path) = last path"
    using idx(1,4) ne by (simp add: last_map last_conv_nth)
  show "2 \<le> length (simplifyPath stride path)" using idx(1,5) by simp
qed

lemma simplifyPath_distinct:
  assumes "distinct path" "0 < stride"
  shows "distinct (simplifyPath stride path) \<and> set (simplifyPath stride path) \<subseteq> set path"
proof (cases "2 \<le> length path")
  case True
  obtain idx where idx: "simplifyPath stride path = map (\<lambda>i. path ! i) idx"
    "\<forall>i \<in> set idx. i < length path" "sorted_wrt (<) idx"
    using simplifyPath_indices[OF True assms(2)] by blast
  have "distinct idx" using idx(3) by (simp add: strict_sorted_iff)
  moreover have "inj_on (\<lambda>i. path ! i) (set idx)"
    using assms(1) idx(2) by (auto simp: inj_on_def nth_eq_iff_index_eq)
  ultimately have "distinct (map (\<lambda>i. path ! i) idx)" by (simp add: distinct_map)
  moreover have "set (map (\<lambda>i. path ! i) idx) \<subseteq> set path" using idx(2) by auto
  ultimately show ?thesis using idx(1) by simp
next
  case False
  then show ?thesis by (simp add: simplifyPath_short)
qed

text \<open>
  A path of 21 points simplified with the stride 2 keeps the indices 0, 2, ..., 20; with
  the stride 3 the last index is appended behind 18.
\<close>

lemma simplifyPath_stride_2: "simplifyPath 2 [0..<21] = [0, 2, 4, 6, 8, 10, 12, 14, 16, 18, 20]"
  by code_simp

lemma simplifyPath_stride_3: "simplifyPath 3 [0..<21] = [0, 3, 6, 9, 12, 15, 18, 20]"
  by code_simp

text \<open>
  On a path without repeated points, which every traced path is, comparing the two last
  elements by value gives the same simplified path as comparing them by reference.
\<close>

lemma simplifyPath_by_value:
  assumes "distinct path" "2 \<le> length path" "0 < stride"
  shows "simplifyPath stride path =
           (let simplePath = map (\<lambda>i. path ! i) (strideLoop (length path) stride 0 [])
            in if last simplePath \<noteq> last path then simplePath @ [last path] else simplePath)"
proof -
  let ?sp = "strideLoop (length path) stride 0 []"
  have step: "?sp = 0 # strideLoop (length path) stride (0 + stride) []"
    using assms by (intro strideLoop_step) auto
  then have ne: "?sp \<noteq> []" by simp
  have "last ?sp \<in> set ?sp" using ne by simp
  then have lb: "last ?sp < length path"
    using strideLoop_bounds[of "last ?sp" "length path" stride 0 "[]"] by simp
  have "last (map (\<lambda>i. path ! i) ?sp) = path ! (last ?sp)"
    using ne by (simp add: last_map)
  moreover have "last path = path ! (length path - 1)"
    using assms(2) by (intro last_conv_nth) auto
  ultimately have "(last (map (\<lambda>i. path ! i) ?sp) \<noteq> last path) = (last ?sp \<noteq> length path - 1)"
    using assms(1,2) lb by (simp add: nth_eq_iff_index_eq)
  then show ?thesis
    using assms(2) \<open>last path = path ! (length path - 1)\<close>
    by (simp add: simplifyPath_def Let_def)
qed

lemma distinct_concat_map_sub:
  assumes "distinct (concat xss)"
    "\<And>xs. xs \<in> set xss \<Longrightarrow> distinct (f xs) \<and> set (f xs) \<subseteq> set xs"
  shows "distinct (concat (map f xss))"
  using assms
proof (induction xss)
  case Nil
  then show ?case by simp
next
  case (Cons xs xss)
  have "distinct (concat (map f xss))" using Cons by simp
  moreover have "distinct (f xs)" using Cons.prems(2) by simp
  moreover have "set (f xs) \<inter> set (concat (map f xss)) = {}"
  proof -
    have "set (concat (map f xss)) \<subseteq> set (concat xss)"
      using Cons.prems(2) by auto
    moreover have "set (f xs) \<subseteq> set xs" using Cons.prems(2) by simp
    moreover have "set xs \<inter> set (concat xss) = {}" using Cons.prems(1) by simp
    ultimately show ?thesis by blast
  qed
  ultimately show ?case by simp
qed

lemma distinct_concat_member:
  "distinct (concat xss) \<Longrightarrow> xs \<in> set xss \<Longrightarrow> distinct xs"
  by (induction xss) auto

lemma distinct_concat_filter:
  "distinct (concat xss) \<Longrightarrow> distinct (concat (filter P xss))"
  by (induction xss) auto


subsection \<open>Every traced point is an edge pixel of the mask\<close>

lemma edgePixels_candidates: "set (edgePixels E w h) \<subseteq> candidates E w h"
  by (auto simp: edgePixels_def candidates_def)

lemma walk_candidates:
  "walk E w h st vis path = (vis', path') \<Longrightarrow> set path \<subseteq> candidates E w h \<Longrightarrow>
     set path' \<subseteq> candidates E w h"
proof (induction E w h st vis path rule: walk.induct)
  case (1 E w h vis path)
  then show ?case by simp
next
  case (2 E w h cur st vis path)
  show ?case
  proof (cases "findNext E w h vis cur")
    case None
    with 2 show ?thesis by simp
  next
    case (Some n)
    have "n \<in> candidates E w h" using findNext_candidate[OF Some] by simp
    then have "set (path @ [n]) \<subseteq> candidates E w h" using "2.prems"(2) by simp
    moreover have "walk E w h (n # cur # st) (insert n vis) (path @ [n]) = (vis', path')"
      using "2.prems"(1) Some by simp
    ultimately show ?thesis using "2.IH"(2)[OF Some] by blast
  qed
qed

lemma completedWalks_candidates:
  "set ps \<subseteq> candidates E w h \<Longrightarrow> path \<in> set (completedWalks E w h ps vis) \<Longrightarrow>
     set path \<subseteq> candidates E w h"
proof (induction ps arbitrary: vis)
  case Nil
  then show ?case by simp
next
  case (Cons p ps)
  show ?case
  proof (cases "p \<in> vis")
    case True
    with Cons show ?thesis by simp
  next
    case False
    obtain vis' path0 where w: "walk E w h [p] (insert p vis) [p] = (vis', path0)"
      by (cases "walk E w h [p] (insert p vis) [p]")
    have eq: "completedWalks E w h (p # ps) vis = path0 # completedWalks E w h ps vis'"
      using False w by simp
    have p0: "set path0 \<subseteq> candidates E w h"
      using walk_candidates[OF w] Cons.prems(1) by simp
    show ?thesis
    proof (cases "path = path0")
      case True
      with p0 show ?thesis by simp
    next
      case False
      with Cons.prems eq have "path \<in> set (completedWalks E w h ps vis')" by simp
      with Cons.IH Cons.prems(1) show ?thesis by simp
    qed
  qed
qed

lemma simplifyPath_subset:
  assumes "0 < stride"
  shows "set (simplifyPath stride path) \<subseteq> set path"
proof (cases "2 \<le> length path")
  case True
  obtain idx where idx: "simplifyPath stride path = map (\<lambda>i. path ! i) idx"
    "\<forall>i \<in> set idx. i < length path"
    using simplifyPath_indices[OF True assms] by blast
  then show ?thesis by auto
next
  case False
  then show ?thesis by (simp add: simplifyPath_short)
qed

lemma output_points_candidates:
  assumes "out \<in> set (vectoriseEdges E w h s m)" "p \<in> set out"
  shows "p \<in> candidates E w h"
proof -
  obtain raw where raw: "raw \<in> set (rawPaths E w h m)" "out = simplifyPath (strideOf s) raw"
    using assms(1) by (auto simp: vectoriseEdges_def)
  have "raw \<in> set (completedWalks E w h (edgePixels E w h) {})"
    using raw(1) rawPaths_sub by blast
  then have "set raw \<subseteq> candidates E w h"
    using completedWalks_candidates edgePixels_candidates by blast
  moreover have "set out \<subseteq> set raw"
    unfolding raw(2) by (rule simplifyPath_subset) (rule strideOf_pos)
  ultimately show ?thesis using assms(2) by blast
qed

lemma candidates_in_buffer:
  assumes "p \<in> candidates E w h"
  shows "inBounds w h p \<and> nat ((snd p * int w + fst p) * 4) < length E"
  using assms by (auto simp: candidates_def inBounds_def isEdge_def Let_def)

subsection \<open>Only the edge pixels inside the image matter\<close>







lemma length_fitBuffer [simp]: "length (fitBuffer n E) = n"
  by (simp add: fitBuffer_def)



subsection \<open>The claims about the vectorizer\<close>

text \<open>
  C8.  The retained raw paths are exactly the completed walks whose length is strictly
  greater than \<open>minPathLength\<close>, in the order of the walks: every retained path is
  longer than \<open>minPathLength\<close>, and every completed walk of length at most
  \<open>minPathLength\<close> is dropped.
\<close>

theorem length_filter:
  "rawPaths edgeData width height minPathLength =
     filter (\<lambda>path. minPathLength < int (length path))
       (completedWalks edgeData width height (edgePixels edgeData width height) {})"
  by (simp add: rawPaths_def traceLoop_filter)

text \<open>
  C9.  No pixel coordinate occurs twice in the output of \<open>vectoriseEdges\<close>: the
  concatenation of all output paths has no repeated point, so no path repeats a point
  and no two paths share one.
\<close>

theorem output_points_distinct:
  "distinct (concat (vectoriseEdges edgeData width height simplification minPathLength))"
proof -
  let ?walks = "completedWalks edgeData width height (edgePixels edgeData width height) {}"
  let ?raw = "rawPaths edgeData width height minPathLength"
  have "distinct (concat ?walks)"
    using completedWalks_distinct by blast
  then have raw: "distinct (concat ?raw)"
    by (simp add: rawPaths_def traceLoop_filter distinct_concat_filter)
  have "distinct (concat (map (simplifyPath (strideOf simplification)) ?raw))"
  proof (rule distinct_concat_map_sub[OF raw])
    fix xs assume "xs \<in> set ?raw"
    with raw have "distinct xs" by (rule distinct_concat_member)
    then show "distinct (simplifyPath (strideOf simplification) xs) \<and>
               set (simplifyPath (strideOf simplification) xs) \<subseteq> set xs"
      by (rule simplifyPath_distinct) (rule strideOf_pos)
  qed
  then show ?thesis
    unfolding vectoriseEdges_def by (rule distinct_concat_filter)
qed

text \<open>
  C10.  Every path of the output has at least two points, and a retained raw path of a
  single pixel is simplified to the empty path, which the final filter removes, whatever
  \<open>minPathLength\<close> let it through.
\<close>

theorem output_paths_two_points:
  "(\<forall>out \<in> set (vectoriseEdges edgeData width height simplification minPathLength).
      2 \<le> length out) \<and>
   (\<forall>raw \<in> set (rawPaths edgeData width height minPathLength).
      length raw = 1 \<longrightarrow>
        simplifyPath (strideOf simplification) raw = [] \<and>
        simplifyPath (strideOf simplification) raw
          \<notin> set (vectoriseEdges edgeData width height simplification minPathLength))"
  by (auto simp: vectoriseEdges_def simplifyPath_short)

theorem output_paths_two_points_witness:
  "[(0, 0), (2, 0)] \<in> set (vectoriseEdges lineMask 3 1 2 0) \<and>
   2 \<le> length [(0, 0), (2, 0) :: point] \<and>
   [(0, 0)] \<in> set (rawPaths dotMask 1 1 0) \<and>
   simplifyPath (strideOf 1) [(0, 0) :: point] = [] \<and>
   vectoriseEdges dotMask 1 1 1 0 = []"
proof -
  have a: "[(0, 0), (2, 0)] \<in> set (vectoriseEdges lineMask 3 1 2 0)" by code_simp
  have b: "[(0, 0)] \<in> set (rawPaths dotMask 1 1 0)" by code_simp
  have c: "vectoriseEdges dotMask 1 1 1 0 = []" by code_simp
  note t1 = output_paths_two_points[where edgeData = lineMask and width = 3 and height = 1
      and simplification = 2 and minPathLength = 0, THEN conjunct1, THEN bspec, OF a]
  note t2 = output_paths_two_points[where edgeData = dotMask and width = 1 and height = 1
      and simplification = 1 and minPathLength = 0, THEN conjunct2, THEN bspec, OF b]
  show ?thesis using a b c t1 t2 by simp
qed

text \<open>
  C7.  Every path of the output is the simplification of a retained raw path, and it
  starts at the first point of that raw path and ends at its last point.
\<close>

theorem simplification_endpoints:
  assumes "out \<in> set (vectoriseEdges edgeData width height simplification minPathLength)"
  shows "\<exists>raw \<in> set (rawPaths edgeData width height minPathLength).
           out = simplifyPath (strideOf simplification) raw \<and>
           hd out = hd raw \<and> last out = last raw"
proof -
  obtain raw where raw: "raw \<in> set (rawPaths edgeData width height minPathLength)"
    "out = simplifyPath (strideOf simplification) raw" "1 < length out"
    using assms by (auto simp: vectoriseEdges_def)
  have "\<not> length raw < 2"
    using raw(2,3) by (auto simp: simplifyPath_short)
  then have "2 \<le> length raw" by simp
  from simplifyPath_ends(1,2)[OF this strideOf_pos] raw(1,2) show ?thesis by blast
qed

theorem simplification_endpoints_witness:
  "[(0, 0), (2, 0)] \<in> set (vectoriseEdges lineMask 3 1 2 0) \<and>
   (\<exists>raw \<in> set (rawPaths lineMask 3 1 0).
      [(0, 0), (2, 0)] = simplifyPath (strideOf 2) raw \<and>
      hd [(0, 0), (2, 0)] = hd raw \<and> last [(0, 0), (2, 0)] = last raw)"
proof -
  have a: "[(0, 0), (2, 0)] \<in> set (vectoriseEdges lineMask 3 1 2 0)" by code_simp
  show ?thesis using a simplification_endpoints[OF a] by blast
qed

text \<open>
  C1, as the specification states it, fails: after the walk has backtracked, the next
  point is pushed onto the same path, behind the dead end it backtracked from.  On
  \<open>forkMask\<close> the walk from (1,0) takes (0,1), finds no further neighbour there, pops
  back to (1,0) and takes (2,1): the path is (1,0), (0,1), (2,1), and (0,1) and (2,1)
  are at Chebyshev distance 2.
\<close>

theorem consecutive_neighbours_counterexample:
  "rawPaths forkMask 3 2 0 = [[(1, 0), (0, 1), (2, 1)]] \<and>
   chebyshev (0, 1) (2, 1) = 2 \<and>
   \<not> list_all consecutiveNeighbours (rawPaths forkMask 3 2 0)"
  by code_simp

text \<open>
  C1, amended.  In a raw path, every point but the first is an 8-connected neighbour
  (Chebyshev distance exactly 1) of an earlier point \<open>i\<close> of the path, and every point
  between \<open>i\<close> and it is a dead end: all the points of the path next to a point in
  between come before.  So two consecutive points are 8-connected neighbours unless the
  walk backtracked between them, and then the earlier one is a dead end.
\<close>

theorem raw_path_backtracking:
  assumes "path \<in> set (rawPaths edgeData width height minPathLength)"
    and "0 < j" and "j < length path"
  shows "(\<exists>i < j. chebyshev (path ! i) (path ! j) = 1 \<and>
            (\<forall>k. i < k \<and> k < j \<longrightarrow>
               (\<forall>l < length path. chebyshev (path ! k) (path ! l) = 1 \<longrightarrow> l < j))) \<and>
         (chebyshev (path ! (j - 1)) (path ! j) = 1 \<or>
            (\<forall>l < length path. chebyshev (path ! (j - 1)) (path ! l) = 1 \<longrightarrow> l < j))"
proof -
  have "path \<in> set (completedWalks edgeData width height (edgePixels edgeData width height) {})"
    using assms(1) rawPaths_sub by blast
  from completedWalks_backtrack[OF this assms(2,3)]
  obtain i where i: "i < j" "chebyshev (path ! i) (path ! j) = 1"
    "\<forall>k. i < k \<and> k < j \<longrightarrow>
       (\<forall>l < length path. chebyshev (path ! k) (path ! l) = 1 \<longrightarrow> l < j)"
    by (elim exE conjE)
  have "chebyshev (path ! (j - 1)) (path ! j) = 1 \<or>
          (\<forall>l < length path. chebyshev (path ! (j - 1)) (path ! l) = 1 \<longrightarrow> l < j)"
  proof (cases "i = j - 1")
    case True
    with i(2) show ?thesis by simp
  next
    case False
    with i(1) assms(2) have "i < j - 1 \<and> j - 1 < j" by linarith
    with i(3) show ?thesis by blast
  qed
  with i show ?thesis by blast
qed

theorem raw_path_backtracking_witness:
  "[(1, 0), (0, 1), (2, 1)] \<in> set (rawPaths forkMask 3 2 0) \<and>
   (\<exists>i < 2. chebyshev ([(1, 0), (0, 1), (2, 1)] ! i) ([(1, 0), (0, 1), (2, 1)] ! 2) = 1 \<and>
      (\<forall>k. i < k \<and> k < 2 \<longrightarrow>
         (\<forall>l < length [(1, 0), (0, 1), (2, 1) :: point].
            chebyshev ([(1, 0), (0, 1), (2, 1)] ! k) ([(1, 0), (0, 1), (2, 1)] ! l) = 1 \<longrightarrow> l < 2))) \<and>
   chebyshev ([(1, 0), (0, 1), (2, 1)] ! (2 - 1)) ([(1, 0), (0, 1), (2, 1)] ! 2) \<noteq> 1"
proof -
  have a: "[(1, 0), (0, 1), (2, 1)] \<in> set (rawPaths forkMask 3 2 0)" by code_simp
  have b: "(0::nat) < 2" "2 < length [(1, 0), (0, 1), (2, 1) :: point]" by simp_all
  have c: "chebyshev ([(1, 0), (0, 1), (2, 1)] ! (2 - 1)) ([(1, 0), (0, 1), (2, 1)] ! 2) \<noteq> 1"
    by (simp add: chebyshev_def)
  show ?thesis using a c raw_path_backtracking[OF a b, THEN conjunct1] by blast
qed

section \<open>Properties of the edge detection\<close>

subsection \<open>The interior loops\<close>

lemma interior_iff:
  "(x, y) \<in> set (interior w h) \<longleftrightarrow> 1 \<le> x \<and> x < w - 1 \<and> 1 \<le> y \<and> y < h - 1"
  by (force simp: interior_def)

lemma interior_small: "w < 3 \<or> h < 3 \<Longrightarrow> interior w h = []"
  by (auto simp: interior_def)

lemma foldl_update_length:
  "length (foldl (\<lambda>out (x, y). out[y * w + x := f x y]) out ps) = length out"
  by (induction ps arbitrary: out) (auto split: prod.splits)

lemma foldl_update_other:
  "\<forall>(x, y) \<in> set ps. y * w + x \<noteq> i \<Longrightarrow>
     foldl (\<lambda>out (x, y). out[y * w + x := f x y]) out ps ! i = out ! i"
  by (induction ps arbitrary: out) (auto split: prod.splits)

lemma length_fillInterior [simp]: "length (fillInterior w h f out) = length out"
  by (simp add: fillInterior_def foldl_update_length)

lemma fillInterior_small: "w < 3 \<or> h < 3 \<Longrightarrow> fillInterior w h f out = out"
  by (simp add: fillInterior_def interior_small)

lemma index_unique:
  fixes w :: nat
  assumes "x < w" "x' < w" "y * w + x = y' * w + x'"
  shows "x = x' \<and> y = y'"
proof -
  have "(y * w + x) mod w = x" "(y' * w + x') mod w = x'"
    using assms(1,2) by simp_all
  then have x: "x = x'" using assms(3) by simp
  have "(y * w + x) div w = y" "(y' * w + x') div w = y'"
    using assms(1,2) by simp_all
  then have "y = y'" using assms(3) by simp
  with x show ?thesis by simp
qed

lemma fillInterior_border:
  assumes "onBorder w h x y"
  shows "fillInterior w h f out ! (y * w + x) = out ! (y * w + x)"
  unfolding fillInterior_def
proof (rule foldl_update_other, clarify)
  fix x' y' assume i: "(x', y') \<in> set (interior w h)" and e: "y' * w + x' = y * w + x"
  have "x' < w" "x < w" using i assms by (auto simp: interior_iff onBorder_def)
  from index_unique[OF this e] have "x' = x" "y' = y" by simp_all
  with i assms show False by (auto simp: interior_iff onBorder_def)
qed

lemma length_thinned [simp]: "length (thinned fp data w h) = w * h"
  by (simp add: thinned_def Let_def)

lemma thinned_border:
  assumes "onBorder w h x y"
  shows "thinned fp data w h ! (y * w + x) = Fin 0"
proof -
  have "y * w + x < w * h"
  proof -
    have "y * w + x < y * w + w" using assms by (simp add: onBorder_def)
    also have "\<dots> = (Suc y) * w" by simp
    also have "\<dots> \<le> h * w" using assms by (intro mult_le_mono1) (simp add: onBorder_def)
    finally show ?thesis by (simp add: mult.commute)
  qed
  then show ?thesis
    by (simp add: thinned_def Let_def fillInterior_border[OF assms])
qed

lemma thinned_small: "w < 3 \<or> h < 3 \<Longrightarrow> thinned fp data w h = replicate (w * h) (Fin 0)"
  by (simp add: thinned_def Let_def fillInterior_small)

lemma gaussianBlur_small:
  "w < 3 \<or> h < 3 \<Longrightarrow> gaussianBlur data w h = replicate (length data) (Fin 0)"
  by (simp add: gaussianBlur_def fillInterior_small)


subsection \<open>The two loops of the hysteresis\<close>

lemma foldl_promote:
  "foldl promote (tm, st) ks = (tm', st') \<Longrightarrow>
     length tm' = length tm \<and>
     (\<forall>i < length tm. tm' ! i = (if i \<in> set ks \<and> tm ! i = WEAK then STRONG else tm ! i)) \<and>
     set st' = set st \<union> {i \<in> set ks. i < length tm \<and> tm ! i = WEAK}"
proof (induction ks arbitrary: tm st)
  case Nil
  then show ?case by simp
next
  case (Cons k ks)
  obtain tm1 st1 where s: "promote (tm, st) k = (tm1, st1)"
    by (cases "promote (tm, st) k")
  from Cons.prems s have f: "foldl promote (tm1, st1) ks = (tm', st')" by simp
  note ih = Cons.IH[OF f]
  show ?case
  proof (cases "k < length tm \<and> tm ! k = WEAK")
    case True
    then have 1: "tm1 = tm[k := STRONG]" "st1 = k # st"
      using s by (simp_all add: promote_def)
    have l: "length tm1 = length tm" using 1 by simp
    have a: "\<forall>i < length tm. tm' ! i = (if i \<in> set (k # ks) \<and> tm ! i = WEAK then STRONG else tm ! i)"
      using ih l 1 True by (auto simp: nth_list_update)
    have b: "set st' = set st \<union> {i \<in> set (k # ks). i < length tm \<and> tm ! i = WEAK}"
      using ih l 1 True by (auto simp: nth_list_update split: if_splits)
    show ?thesis using ih l a b by simp
  next
    case False
    then have 1: "tm1 = tm" "st1 = st"
      using s by (auto simp: promote_def)
    show ?thesis using ih 1 False by auto
  qed
qed

lemma identify_prefix:
  assumes "m \<le> n"
  shows "case foldl (\<lambda>(traceMap, stack) i.
              if jge (nms ! i) (Fin high) then (traceMap[i := STRONG], i # stack)
              else if jge (nms ! i) (Fin low) then (traceMap[i := WEAK], stack)
              else (traceMap, stack))
           (replicate n NONE, []) [0..<m] of
         (tm, st) \<Rightarrow>
           length tm = n \<and>
           (\<forall>i < n. tm ! i = (if i < m then (if jge (nms ! i) (Fin high) then STRONG
                                 else if jge (nms ! i) (Fin low) then WEAK else NONE) else NONE)) \<and>
           set st = {i. i < m \<and> jge (nms ! i) (Fin high)}"
  using assms
proof (induction m)
  case 0
  then show ?case by simp
next
  case (Suc m)
  then have ih: "case foldl (\<lambda>(traceMap, stack) i.
              if jge (nms ! i) (Fin high) then (traceMap[i := STRONG], i # stack)
              else if jge (nms ! i) (Fin low) then (traceMap[i := WEAK], stack)
              else (traceMap, stack))
           (replicate n NONE, []) [0..<m] of
         (tm, st) \<Rightarrow>
           length tm = n \<and>
           (\<forall>i < n. tm ! i = (if i < m then (if jge (nms ! i) (Fin high) then STRONG
                                 else if jge (nms ! i) (Fin low) then WEAK else NONE) else NONE)) \<and>
           set st = {i. i < m \<and> jge (nms ! i) (Fin high)}"
    by simp
  have mn: "m < n" using Suc.prems by simp
  show ?case
    using ih mn
    by (auto simp: nth_list_update less_Suc_eq split: prod.splits)
qed


subsection \<open>The neighbours of a pixel\<close>

lemma neighbours_iff:
  assumes "idx < w * h"
  shows "b \<in> set (neighbours w h idx) \<longleftrightarrow> adjacent w h idx b"
proof
  have w0: "0 < w" using assms by (cases w) auto
  assume "b \<in> set (neighbours w h idx)"
  then obtain nx ny j i where b: "b = nat (ny * int w + nx)" and ib: "inBounds w h (nx, ny)"
    and n: "nx = int (idx mod w) + j" "ny = int (idx div w) + i"
    and o: "(j, i) \<in> set neighbourOffsets"
    by (auto simp: neighbours_def Let_def)
  define x y where "x = nat nx" and "y = nat ny"
  have xy: "nx = int x" "ny = int y" "x < w" "y < h"
    using ib by (auto simp: inBounds_def x_def y_def)
  have b': "b = y * w + x"
    unfolding b xy by (simp add: nat_add_distrib nat_mult_distrib)
  have bm: "b mod w = x" "b div w = y" using xy(3) b' by simp_all
  have bl: "b < w * h" unfolding b' using xy(3,4) by (rule index_bound)
  have ji: "\<bar>j\<bar> \<le> 1" "\<bar>i\<bar> \<le> 1" "\<not> (j = 0 \<and> i = 0)"
    using o by (simp_all add: offsets_iff)
  have d1: "\<bar>int (idx mod w) - int (b mod w)\<bar> \<le> 1"
    using n(1) xy(1) ji(1) bm(1) by linarith
  have d2: "\<bar>int (idx div w) - int (b div w)\<bar> \<le> 1"
    using n(2) xy(2) ji(2) bm(2) by linarith
  have ne: "idx \<noteq> b"
  proof
    assume "idx = b"
    then have "j = 0" "i = 0" using n xy(1,2) bm by simp_all
    with ji(3) show False by simp
  qed
  show "adjacent w h idx b"
    using assms bl ne d1 d2 by (simp add: adjacent_def)
next
  assume a: "adjacent w h idx b"
  have w0: "0 < w" using assms by (cases w) auto
  have bl: "b < w * h" and ne: "idx \<noteq> b"
    and d1: "\<bar>int (idx mod w) - int (b mod w)\<bar> \<le> 1"
    and d2: "\<bar>int (idx div w) - int (b div w)\<bar> \<le> 1"
    using a by (simp_all add: adjacent_def)
  define j i where "j = int (b mod w) - int (idx mod w)" and "i = int (b div w) - int (idx div w)"
  have "\<not> (j = 0 \<and> i = 0)"
  proof
    assume "j = 0 \<and> i = 0"
    then have "b mod w = idx mod w" "b div w = idx div w" by (simp_all add: j_def i_def)
    then have "b = idx" by (metis div_mult_mod_eq)
    with ne show False by simp
  qed
  moreover have "\<bar>j\<bar> \<le> 1" "\<bar>i\<bar> \<le> 1"
    using d1 d2 unfolding j_def i_def by linarith+
  ultimately have o: "(j, i) \<in> set neighbourOffsets"
    by (simp add: offsets_iff)
  have ib: "inBounds w h (int (b mod w), int (b div w))"
    using w0 bl by (simp add: inBounds_def less_mult_imp_div_less mult.commute)
  have p: "(int (b mod w), int (b div w)) \<in>
            set (filter (inBounds w h)
              (map (\<lambda>(j, i). (int (idx mod w) + j, int (idx div w) + i)) neighbourOffsets))"
  proof -
    have "(int (b mod w), int (b div w)) = (\<lambda>(j, i). (int (idx mod w) + j, int (idx div w) + i)) (j, i)"
      by (simp add: j_def i_def)
    then have "(int (b mod w), int (b div w)) \<in>
        set (map (\<lambda>(j, i). (int (idx mod w) + j, int (idx div w) + i)) neighbourOffsets)"
      using o by (metis (no_types, lifting) image_eqI set_map)
    with ib show ?thesis by simp
  qed
  have "nat (int (b div w) * int w + int (b mod w)) = b"
    by (simp add: nat_add_distrib nat_mult_distrib)
  then have "b = (\<lambda>(nx, ny). nat (ny * int w + nx)) (int (b mod w), int (b div w))"
    by simp
  from this p show "b \<in> set (neighbours w h idx)"
    unfolding neighbours_def Let_def set_map by (rule image_eqI)
qed

subsection \<open>The invariant of the propagation\<close>

lemma jge_threshold_mono: "low \<le> high \<Longrightarrow> jge v (Fin high) \<Longrightarrow> jge v (Fin low)"
  by (cases v) auto

lemma hystInv_init:
  assumes len: "length nms = w * h" and lh: "low \<le> high"
    and id: "identify nms w h low high = (tm, st)"
  shows "hystInv nms w h low high tm st"
proof -
  let ?cls = "\<lambda>i. if jge (nms ! i) (Fin high) then STRONG
                  else if jge (nms ! i) (Fin low) then WEAK else NONE"
  have "length tm = w * h \<and> (\<forall>i < w * h. tm ! i = (if i < w * h then ?cls i else NONE)) \<and>
        set st = {i. i < w * h \<and> jge (nms ! i) (Fin high)}"
    using identify_prefix[of "w * h" "w * h" nms high low] id
    by (simp add: identify_def len)
  then have l: "length tm = w * h" and t: "\<And>i. i < w * h \<Longrightarrow> tm ! i = ?cls i"
    and s: "set st = {i. i < w * h \<and> jge (nms ! i) (Fin high)}"
    by simp_all
  have 2: "\<forall>i < w * h. (tm ! i \<noteq> NONE) = jge (nms ! i) (Fin low)"
    using t jge_threshold_mono[OF lh] by auto
  have 3: "\<forall>i < w * h. tm ! i = STRONG \<longrightarrow> connectedToStrong nms w h low high i"
  proof (intro allI impI)
    fix i assume i: "i < w * h" "tm ! i = STRONG"
    then have "jge (nms ! i) (Fin high)" using t[OF i(1)] by (auto split: if_splits)
    with i(1) show "connectedToStrong nms w h low high i"
      unfolding connectedToStrong_def by blast
  qed
  have 4: "\<forall>i < w * h. jge (nms ! i) (Fin high) \<longrightarrow> tm ! i = STRONG"
    using t by simp
  have 5: "\<forall>i < w * h. tm ! i = STRONG \<and> i \<notin> set st \<longrightarrow>
             (\<forall>b. adjacent w h i b \<longrightarrow> tm ! b \<noteq> WEAK)"
    using t s by (auto split: if_splits)
  have 6: "\<forall>i \<in> set st. i < w * h \<and> tm ! i = STRONG"
    using t s by simp
  show ?thesis unfolding hystInv_def using l 2 3 4 5 6 by blast
qed

lemma hystInv_step:
  assumes inv: "hystInv nms w h low high tm (idx # st)"
    and f: "foldl promote (tm, st) (neighbours w h idx) = (tm', st')"
  shows "hystInv nms w h low high tm' st'"
proof -
  let ?n = "w * h"
  have l: "length tm = ?n"
    and c: "\<And>i. i < ?n \<Longrightarrow> (tm ! i \<noteq> NONE) = jge (nms ! i) (Fin low)"
    and snd: "\<And>i. i < ?n \<Longrightarrow> tm ! i = STRONG \<Longrightarrow> connectedToStrong nms w h low high i"
    and seed: "\<And>i. i < ?n \<Longrightarrow> jge (nms ! i) (Fin high) \<Longrightarrow> tm ! i = STRONG"
    and cl: "\<And>i b. i < ?n \<Longrightarrow> tm ! i = STRONG \<Longrightarrow> i \<notin> set (idx # st) \<Longrightarrow>
                adjacent w h i b \<Longrightarrow> tm ! b \<noteq> WEAK"
    and stk: "\<And>i. i \<in> set (idx # st) \<Longrightarrow> i < ?n \<and> tm ! i = STRONG"
    using inv unfolding hystInv_def by blast+
  have idx: "idx < ?n" "tm ! idx = STRONG" using stk[of idx] by simp_all
  note nb = neighbours_iff[OF idx(1)]
  have l': "length tm' = ?n"
    and t': "\<And>i. i < ?n \<Longrightarrow> tm' ! i = (if adjacent w h idx i \<and> tm ! i = WEAK then STRONG else tm ! i)"
    and s': "set st' = set st \<union> {i. adjacent w h idx i \<and> i < ?n \<and> tm ! i = WEAK}"
    using foldl_promote[OF f] l nb by auto
  have 2: "\<forall>i < ?n. (tm' ! i \<noteq> NONE) = jge (nms ! i) (Fin low)"
  proof (intro allI impI)
    fix i assume i: "i < ?n"
    have "(tm' ! i \<noteq> NONE) = (tm ! i \<noteq> NONE)"
      using t'[OF i] by (cases "tm ! i") simp_all
    then show "(tm' ! i \<noteq> NONE) = jge (nms ! i) (Fin low)" using c[OF i] by simp
  qed
  have 3: "\<forall>i < ?n. tm' ! i = STRONG \<longrightarrow> connectedToStrong nms w h low high i"
  proof (intro allI impI)
    fix i assume i: "i < ?n" "tm' ! i = STRONG"
    show "connectedToStrong nms w h low high i"
    proof (cases "tm ! i = STRONG")
      case True
      with i(1) show ?thesis by (rule snd)
    next
      case False
      with i t'[OF i(1)] have a: "adjacent w h idx i" "tm ! i = WEAK"
        by (auto split: if_splits)
      have "jge (nms ! idx) (Fin low)" using c[OF idx(1)] idx(2) by simp
      moreover have "jge (nms ! i) (Fin low)" using c[OF i(1)] a(2) by simp
      ultimately have link: "weakLink nms w h low idx i"
        using a(1) by (simp add: weakLink_def)
      obtain s where s: "s < ?n" "jge (nms ! s) (Fin high)" "(weakLink nms w h low)\<^sup>*\<^sup>* s idx"
        using snd[OF idx] unfolding connectedToStrong_def by blast
      from s(3) link have "(weakLink nms w h low)\<^sup>*\<^sup>* s i" by (rule rtranclp.rtrancl_into_rtrancl)
      with s(1,2) show ?thesis unfolding connectedToStrong_def by blast
    qed
  qed
  have 4: "\<forall>i < ?n. jge (nms ! i) (Fin high) \<longrightarrow> tm' ! i = STRONG"
    using t' seed by auto
  have 5: "\<forall>i < ?n. tm' ! i = STRONG \<and> i \<notin> set st' \<longrightarrow>
             (\<forall>b. adjacent w h i b \<longrightarrow> tm' ! b \<noteq> WEAK)"
  proof (intro allI impI, elim conjE)
    fix i b assume i: "i < ?n" "tm' ! i = STRONG" "i \<notin> set st'" and ab: "adjacent w h i b"
    have b: "b < ?n" using ab by (simp add: adjacent_def)
    show "tm' ! b \<noteq> WEAK"
    proof
      assume "tm' ! b = WEAK"
      then have w: "tm ! b = WEAK" "\<not> adjacent w h idx b"
        using t'[OF b] by (auto split: if_splits)
      have ni: "i \<noteq> idx" using w(2) ab by auto
      have "tm ! i = STRONG"
      proof (rule ccontr)
        assume "tm ! i \<noteq> STRONG"
        with i(1,2) t'[OF i(1)] have "adjacent w h idx i \<and> tm ! i = WEAK"
          by (auto split: if_splits)
        with i(1) have "i \<in> set st'" using s' by simp
        with i(3) show False by simp
      qed
      moreover have "i \<notin> set (idx # st)" using ni i(3) s' by auto
      ultimately have "tm ! b \<noteq> WEAK" using cl[OF i(1) _ _ ab] by simp
      with w(1) show False by simp
    qed
  qed
  have 6: "\<forall>i \<in> set st'. i < ?n \<and> tm' ! i = STRONG"
  proof
    fix i assume "i \<in> set st'"
    then consider "i \<in> set st" | "adjacent w h idx i" "i < ?n" "tm ! i = WEAK"
      using s' by auto
    then show "i < ?n \<and> tm' ! i = STRONG"
    proof cases
      case 1
      then have "i < ?n" "tm ! i = STRONG" using stk[of i] by simp_all
      then show ?thesis using t' by simp
    next
      case 2
      then show ?thesis using t' by simp
    qed
  qed
  show ?thesis unfolding hystInv_def using l' 2 3 4 5 6 by blast
qed

lemma hystInv_propagate:
  "hystInv nms w h low high tm st \<Longrightarrow> hystInv nms w h low high (propagate w h tm st) []"
proof (induction w h tm st rule: propagate.induct)
  case (1 w h tm)
  then show ?case by simp
next
  case (2 w h tm idx st)
  obtain tm' st' where f: "foldl promote (tm, st) (neighbours w h idx) = (tm', st')"
    by (cases "foldl promote (tm, st) (neighbours w h idx)")
  have "hystInv nms w h low high tm' st'"
    using "2.prems" f by (rule hystInv_step)
  then have "hystInv nms w h low high (propagate w h tm' st') []"
    by (rule "2.IH"[OF f[symmetric]])
  then show ?case using f by simp
qed

lemma hystInv_final:
  assumes inv: "hystInv nms w h low high tm []" and i: "i < w * h"
  shows "(tm ! i = STRONG) = (jge (nms ! i) (Fin low) \<and> connectedToStrong nms w h low high i)"
proof
  assume s: "tm ! i = STRONG"
  then have "tm ! i \<noteq> NONE" by simp
  with inv i s show "jge (nms ! i) (Fin low) \<and> connectedToStrong nms w h low high i"
    unfolding hystInv_def by blast
next
  assume a: "jge (nms ! i) (Fin low) \<and> connectedToStrong nms w h low high i"
  then obtain s where s: "s < w * h" "jge (nms ! s) (Fin high)" "(weakLink nms w h low)\<^sup>*\<^sup>* s i"
    unfolding connectedToStrong_def by blast
  from s(3) show "tm ! i = STRONG"
  proof (induction rule: rtranclp_induct)
    case base
    from inv s(1,2) show ?case unfolding hystInv_def by blast
  next
    case (step a b)
    have ad: "adjacent w h a b" and bl: "jge (nms ! b) (Fin low)"
      using step.hyps(2) by (simp_all add: weakLink_def)
    have al: "a < w * h" and bb: "b < w * h" using ad by (simp_all add: adjacent_def)
    have "tm ! b \<noteq> NONE" using inv bb bl unfolding hystInv_def by blast
    moreover have "tm ! b \<noteq> WEAK"
      using inv al step.IH ad unfolding hystInv_def by simp
    ultimately show ?case by (cases "tm ! b") simp_all
  qed
qed

subsection \<open>Propagation without weak pixels\<close>

lemma foldl_promote_no_weak:
  "\<forall>i < length tm. tm ! i \<noteq> WEAK \<Longrightarrow> foldl promote (tm, st) ks = (tm, st)"
  by (induction ks) (auto simp: promote_def)

lemma propagate_no_weak:
  "\<forall>i < length tm. tm ! i \<noteq> WEAK \<Longrightarrow> propagate w h tm st = tm"
  by (induction st) (simp_all add: foldl_promote_no_weak)

lemma propagate_keeps:
  "i < length tm \<Longrightarrow> tm ! i \<noteq> WEAK \<Longrightarrow>
     length (propagate w h tm st) = length tm \<and> propagate w h tm st ! i = tm ! i"
proof (induction w h tm st rule: propagate.induct)
  case (1 w h tm)
  then show ?case by simp
next
  case (2 w h tm idx st)
  obtain tm' st' where f: "foldl promote (tm, st) (neighbours w h idx) = (tm', st')"
    by (cases "foldl promote (tm, st) (neighbours w h idx)")
  have l: "length tm' = length tm" and e: "tm' ! i = tm ! i"
    using foldl_promote[OF f] "2.prems" by simp_all
  have "length (propagate w h tm' st') = length tm' \<and> propagate w h tm' st' ! i = tm' ! i"
    using "2.IH"[OF f[symmetric]] l e "2.prems" by simp
  then show ?case using f l e by simp
qed

lemma identify_spec:
  assumes "length nms = w * h" "identify nms w h low high = (tm, st)"
  shows "length tm = w * h"
    "\<And>i. i < w * h \<Longrightarrow> tm ! i = (if jge (nms ! i) (Fin high) then STRONG
                                 else if jge (nms ! i) (Fin low) then WEAK else NONE)"
    "set st = {i. i < w * h \<and> jge (nms ! i) (Fin high)}"
proof -
  let ?cls = "\<lambda>i. if jge (nms ! i) (Fin high) then STRONG
                  else if jge (nms ! i) (Fin low) then WEAK else NONE"
  have "length tm = w * h \<and> (\<forall>i < w * h. tm ! i = (if i < w * h then ?cls i else NONE)) \<and>
        set st = {i. i < w * h \<and> jge (nms ! i) (Fin high)}"
    using identify_prefix[of "w * h" "w * h" nms high low] assms
    by (simp add: identify_def)
  then show "length tm = w * h" "\<And>i. i < w * h \<Longrightarrow> tm ! i = ?cls i"
    "set st = {i. i < w * h \<and> jge (nms ! i) (Fin high)}"
    by simp_all
qed

subsection \<open>The output mask\<close>

lemma toRGBA_prefix:
  "m \<le> length tm \<Longrightarrow>
   (let edges = foldl (\<lambda>edges i.
              let val = (if tm ! i = STRONG then 255 else 0); idx = i * 4
              in edges[idx := val, idx + 1 := val, idx + 2 := val, idx + 3 := 255])
           (replicate n (0::nat)) [0..<m]
    in length edges = n \<and>
       (\<forall>k. 4 * k < n \<longrightarrow> edges ! (4 * k) = (if k < m \<and> tm ! k = STRONG then 255 else 0)))"
proof (induction m)
  case 0
  then show ?case by simp
next
  case (Suc m)
  define e where "e = foldl (\<lambda>edges i.
              let val = (if tm ! i = STRONG then 255 else 0); idx = i * 4
              in edges[idx := val, idx + 1 := val, idx + 2 := val, idx + 3 := 255])
           (replicate n (0::nat)) [0..<m]"
  have ih: "length e = n" "\<And>k. 4 * k < n \<Longrightarrow> e ! (4 * k) = (if k < m \<and> tm ! k = STRONG then 255 else 0)"
    using Suc unfolding e_def by (simp_all add: Let_def)
  define v :: nat where "v = (if tm ! m = STRONG then 255 else 0)"
  define e' where "e' = e[m * 4 := v, m * 4 + 1 := v, m * 4 + 2 := v, m * 4 + 3 := 255]"
  have l: "length e' = n" using ih(1) by (simp add: e'_def)
  have n: "\<And>k. 4 * k < n \<Longrightarrow> e' ! (4 * k) = (if k < Suc m \<and> tm ! k = STRONG then 255 else 0)"
  proof -
    fix k assume k: "4 * k < n"
    have a: "m * 4 + 1 \<noteq> 4 * k" "m * 4 + 2 \<noteq> 4 * k" "m * 4 + 3 \<noteq> 4 * k" by presburger+
    have "e' ! (4 * k) = (e[m * 4 := v]) ! (4 * k)"
      unfolding e'_def using a by simp
    also have "\<dots> = (if m = k then v else e ! (4 * k))"
      using k ih(1) by (auto simp: nth_list_update)
    also have "\<dots> = (if k < Suc m \<and> tm ! k = STRONG then 255 else 0)"
      using ih(2)[OF k] by (auto simp: v_def less_Suc_eq)
    finally show "e' ! (4 * k) = (if k < Suc m \<and> tm ! k = STRONG then 255 else 0)" .
  qed
  have "foldl (\<lambda>edges i.
              let val = (if tm ! i = STRONG then 255 else 0); idx = i * 4
              in edges[idx := val, idx + 1 := val, idx + 2 := val, idx + 3 := 255])
           (replicate n (0::nat)) [0..<Suc m] = e'"
    by (simp add: e_def e'_def v_def Let_def)
  then show ?case using l n by (simp add: Let_def)
qed

lemma length_toRGBA [simp]: "length (toRGBA n tm) = n"
  using toRGBA_prefix[of "length tm" tm n] by (simp add: toRGBA_def Let_def)

lemma toRGBA_red:
  "4 * k < n \<Longrightarrow> toRGBA n tm ! (4 * k) = (if k < length tm \<and> tm ! k = STRONG then 255 else 0)"
  using toRGBA_prefix[of "length tm" tm n] by (simp add: toRGBA_def Let_def)

lemma isEdge_toRGBA:
  "isEdge (toRGBA n tm) w (int x) (int y) \<longleftrightarrow>
     4 * (y * w + x) < n \<and> y * w + x < length tm \<and> tm ! (y * w + x) = STRONG"
proof -
  define k where "k = y * w + x"
  have i: "(int y * int w + int x) * 4 = int (4 * k)" by (simp add: k_def)
  have "isEdge (toRGBA n tm) w (int x) (int y) \<longleftrightarrow> 4 * k < n \<and> toRGBA n tm ! (4 * k) = 255"
    unfolding isEdge_def Let_def i by (simp del: of_nat_mult of_nat_add)
  also have "\<dots> \<longleftrightarrow> 4 * k < n \<and> k < length tm \<and> tm ! k = STRONG"
    using toRGBA_red[of k n tm] by (auto split: if_splits)
  finally show ?thesis unfolding k_def .
qed

lemma edgePixels_none:
  assumes "\<forall>k < length tm. tm ! k \<noteq> STRONG"
  shows "edgePixels (toRGBA n tm) w h = []"
  using assms by (auto simp: edgePixels_def isEdge_toRGBA)

lemma vectoriseEdges_none:
  "edgePixels edgeData w h = [] \<Longrightarrow> vectoriseEdges edgeData w h s m = []"
  by (simp add: vectoriseEdges_def rawPaths_def)


lemma hysteresis_length:
  assumes "length nms = w * h"
  shows "length (hysteresis nms w h low high) = w * h"
proof -
  obtain tm st where id: "identify nms w h low high = (tm, st)"
    by (cases "identify nms w h low high")
  have "length (propagate w h tm st) = length tm"
  proof (induction w h tm st rule: propagate.induct)
    case (1 w h tm)
    then show ?case by simp
  next
    case (2 w h tm idx st)
    obtain tm' st' where f: "foldl promote (tm, st) (neighbours w h idx) = (tm', st')"
      by (cases "foldl promote (tm, st) (neighbours w h idx)")
    have "length tm' = length tm" using foldl_promote[OF f] by simp
    then show ?case using "2.IH"[OF f[symmetric]] f by simp
  qed
  then show ?thesis using identify_spec(1)[OF assms id] id by (simp add: hysteresis_def)
qed

subsection \<open>The claims about the edge classifier\<close>

text \<open>
  C2.  For a thinned field of \<open>width * height\<close> values and thresholds
  \<open>0 \<le> low \<le> high\<close>, a pixel is \<open>STRONG\<close> in the final \<open>traceMap\<close> if and only if
  its thinned magnitude is at least \<open>low\<close> and a chain of 8-adjacent pixels, each of
  thinned magnitude at least \<open>low\<close>, joins it to a pixel of thinned magnitude at least
  \<open>high\<close>.  The red byte of the pixel in the output mask is 255 in that case and 0
  otherwise, so a weak pixel that no strong seed reaches is discarded.
\<close>

theorem hysteresis_connected:
  assumes "length nms = width * height" and "0 \<le> low" and "low \<le> high"
    and "i < width * height"
  shows "(hysteresis nms width height low high ! i = STRONG \<longleftrightarrow>
            jge (nms ! i) (Fin low) \<and> connectedToStrong nms width height low high i) \<and>
         (4 * i < n \<longrightarrow>
            toRGBA n (hysteresis nms width height low high) ! (4 * i) =
              (if jge (nms ! i) (Fin low) \<and> connectedToStrong nms width height low high i
               then 255 else 0))"
proof -
  obtain tm st where id: "identify nms width height low high = (tm, st)"
    by (cases "identify nms width height low high")
  have "hystInv nms width height low high tm st"
    using assms(1,3) id by (rule hystInv_init)
  then have "hystInv nms width height low high (propagate width height tm st) []"
    by (rule hystInv_propagate)
  then have inv: "hystInv nms width height low high (hysteresis nms width height low high) []"
    using id by (simp add: hysteresis_def)
  have a: "hysteresis nms width height low high ! i = STRONG \<longleftrightarrow>
            jge (nms ! i) (Fin low) \<and> connectedToStrong nms width height low high i"
    using inv assms(4) by (rule hystInv_final)
  have l: "i < length (hysteresis nms width height low high)"
    using assms(1,4) by (simp add: hysteresis_length)
  show ?thesis using a l by (simp add: toRGBA_red)
qed

theorem hysteresis_connected_witness:
  "length [Fin 60, Fin 20, Fin 5, Fin 20] = 4 * 1 \<and> (0::real) \<le> 10 \<and> (10::real) \<le> 50 \<and>
   hysteresis [Fin 60, Fin 20, Fin 5, Fin 20] 4 1 10 50 ! 1 = STRONG \<and>
   jge ([Fin 60, Fin 20, Fin 5, Fin 20] ! 1) (Fin 10) \<and>
   connectedToStrong [Fin 60, Fin 20, Fin 5, Fin 20] 4 1 10 50 1 \<and>
   hysteresis [Fin 60, Fin 20, Fin 5, Fin 20] 4 1 10 50 ! 3 = WEAK \<and>
   jge ([Fin 60, Fin 20, Fin 5, Fin 20] ! 3) (Fin 10) \<and>
   \<not> connectedToStrong [Fin 60, Fin 20, Fin 5, Fin 20] 4 1 10 50 3 \<and>
   toRGBA 16 (hysteresis [Fin 60, Fin 20, Fin 5, Fin 20] 4 1 10 50) ! (4 * 3) = 0"
proof -
  let ?nms = "[Fin 60, Fin 20, Fin 5, Fin 20]"
  have h: "length ?nms = 4 * 1" "(0::real) \<le> 10" "(10::real) \<le> 50" by simp_all
  have e1: "hysteresis ?nms 4 1 10 50 ! 1 = STRONG" by code_simp
  have e3: "hysteresis ?nms 4 1 10 50 ! 3 = WEAK" by code_simp
  have j3: "jge (?nms ! 3) (Fin 10)" by simp
  have i1: "(1::nat) < 4 * 1" and i3: "(3::nat) < 4 * 1" by simp_all
  note t1 = hysteresis_connected[OF h i1, where n = 16]
  note t3 = hysteresis_connected[OF h i3, where n = 16]
  show ?thesis using h e1 e3 j3 t1 t3 by simp
qed

text \<open>
  C3, amended.  When both thresholds are strictly positive, no pixel of row 0, row H-1,
  column 0 or column W-1 is \<open>STRONG\<close>, neither after the seeding loop nor after the
  propagation: its thinned magnitude is the initial 0 of the array.
\<close>

theorem border_never_strong:
  assumes "0 < lowThreshold" and "0 < highThreshold" and "onBorder width height x y"
  shows "fst (identify (thinned fp data width height) width height lowThreshold highThreshold)
           ! (y * width + x) \<noteq> STRONG \<and>
         hysteresis (thinned fp data width height) width height lowThreshold highThreshold
           ! (y * width + x) \<noteq> STRONG"
proof -
  let ?nms = "thinned fp data width height"
  obtain tm st where id: "identify ?nms width height lowThreshold highThreshold = (tm, st)"
    by (cases "identify ?nms width height lowThreshold highThreshold")
  have i: "y * width + x < width * height"
    using assms(3) by (intro index_bound) (simp_all add: onBorder_def)
  have z: "?nms ! (y * width + x) = Fin 0"
    using assms(3) by (rule thinned_border)
  have l: "length tm = width * height"
    using identify_spec(1)[OF _ id] by simp
  have "tm ! (y * width + x) = NONE"
    using identify_spec(2)[OF _ id i] z assms(1,2) by simp
  moreover from this have "propagate width height tm st ! (y * width + x) = tm ! (y * width + x)"
    using propagate_keeps[of "y * width + x" tm width height st] i l by simp
  ultimately show ?thesis using id by (simp add: hysteresis_def)
qed

theorem border_never_strong_witness:
  "(0::real) < 50 \<and> (0::real) < 150 \<and> onBorder 3 3 0 0 \<and>
   fst (identify (thinned exactPrims (replicate 36 255) 3 3) 3 3 50 150) ! (0 * 3 + 0) \<noteq> STRONG \<and>
   hysteresis (thinned exactPrims (replicate 36 255) 3 3) 3 3 50 150 ! (0 * 3 + 0) \<noteq> STRONG"
proof -
  have h: "(0::real) < 50" "(0::real) < 150" "onBorder 3 3 0 0"
    by (simp_all add: onBorder_def)
  show ?thesis using h border_never_strong[OF h] by blast
qed

text \<open>
  The thinned field of the all-white image, for every choice of the primitives that
  rounds the luma of a white pixel to 255 and the square root of 260100 to 510, as the
  code's arithmetic does.  The blur leaves the border at 0, so the two interior pixels
  (1,1) and (2,1) see a step of 255 on one side: \<open>sumX\<close> is 510 and -510, \<open>sumY\<close>
  is 0, both magnitudes are 510, and whatever the two directions are, 510 is at least
  the two magnitudes (510, 0 or the default 255) it is compared with.
\<close>

lemma gray_white:
  assumes "luma fp 255 255 255 = 255"
  shows "toGrayscale fp whiteImage = replicate 12 255"
  by (rule nth_equalityI) (simp_all add: toGrayscale_def whiteImage_def assms)

lemma blur_white:
  "gaussianBlur (replicate 12 255) 4 3 =
     [Fin 0, Fin 0, Fin 0, Fin 0, Fin 0, Fin 255, Fin 255, Fin 0, Fin 0, Fin 0, Fin 0, Fin 0]"
  by code_simp

lemma interior_4_3: "interior 4 3 = [(1, 1), (2, 1)]"
  by code_simp

lemma fill_4_3:
  "fillInterior 4 3 f out = out[5 := f 1 1, 6 := f 2 1]"
  by (simp add: fillInterior_def interior_4_3)

lemma sobel_white:
  "sobelAt [Fin 0, Fin 0, Fin 0, Fin 0, Fin 0, Fin 255, Fin 255, Fin 0, Fin 0, Fin 0, Fin 0, Fin 0]
     4 1 1 = (Fin 510, Fin 0)"
  "sobelAt [Fin 0, Fin 0, Fin 0, Fin 0, Fin 0, Fin 255, Fin 255, Fin 0, Fin 0, Fin 0, Fin 0, Fin 0]
     4 2 1 = (Fin (- 510), Fin 0)"
  by code_simp+

lemma sqrt_510: "sqrt 260100 = 510"
  using real_sqrt_abs[of 510] by simp

lemma nms_white:
  "nmsAt fp [Fin 0, Fin 0, Fin 0, Fin 0, Fin 0, Fin 510, Fin 510, Fin 0, Fin 0, Fin 0, Fin 0, Fin 0]
     directions 4 1 1 = Fin 510"
  "nmsAt fp [Fin 0, Fin 0, Fin 0, Fin 0, Fin 0, Fin 510, Fin 510, Fin 0, Fin 0, Fin 0, Fin 0, Fin 0]
     directions 4 2 1 = Fin 510"
  by (simp_all add: nmsAt_def rdF_def Let_def)

lemma thinned_white_any:
  assumes "luma fp 255 255 255 = 255" and "sqrt32 fp 260100 = 510"
  shows "thinned fp whiteImage 4 3 =
     [Fin 0, Fin 0, Fin 0, Fin 0, Fin 0, Fin 510, Fin 510, Fin 0, Fin 0, Fin 0, Fin 0, Fin 0]"
proof -
  let ?B = "[Fin 0, Fin 0, Fin 0, Fin 0, Fin 0, Fin 255, Fin 255, Fin 0, Fin 0, Fin 0, Fin 0, Fin 0]"
  let ?M = "[Fin 0, Fin 0, Fin 0, Fin 0, Fin 0, Fin 510, Fin 510, Fin 0, Fin 0, Fin 0, Fin 0, Fin 0]"
  have z: "replicate (4 * 3) (Fin 0) =
             [Fin 0, Fin 0, Fin 0, Fin 0, Fin 0, Fin 0, Fin 0, Fin 0, Fin 0, Fin 0, Fin 0, Fin 0]"
    by code_simp
  have m1: "magnitudeAt fp ?B 4 1 1 = Fin 510"
    and m2: "magnitudeAt fp ?B 4 2 1 = Fin 510"
    unfolding magnitudeAt_def sobel_white by (simp_all add: assms(2))
  have m: "fillInterior 4 3 (magnitudeAt fp ?B 4) (replicate (4 * 3) (Fin 0)) = ?M"
    unfolding fill_4_3 z m1 m2 by simp
  have n: "fillInterior 4 3 (nmsAt fp ?M directions 4) (replicate (4 * 3) (Fin 0)) = ?M"
    for directions
    unfolding fill_4_3 z nms_white by simp
  show ?thesis
    unfolding thinned_def Let_def gray_white[OF assms(1)] blur_white m n ..
qed

lemma thinned_white:
  "thinned exactPrims whiteImage 4 3 =
     [Fin 0, Fin 0, Fin 0, Fin 0, Fin 0, Fin 510, Fin 510, Fin 0, Fin 0, Fin 0, Fin 0, Fin 0]"
  by (rule thinned_white_any) (simp_all add: exactPrims_def sqrt_510)

text \<open>
  C3, as the specification states it, fails for the threshold 0, which is non-negative.
  With \<open>highThreshold = 0\<close> the thinned magnitude 0 of a border pixel satisfies
  \<open>nms[i] >= highThreshold\<close> and the pixel is seeded \<open>STRONG\<close> (a single black
  pixel).  With \<open>lowThreshold = 0 < highThreshold\<close> every border pixel is weak, and on
  the all-white image the corner (0,0) is promoted from the strong pixel (1,1).
\<close>

theorem border_strong_counterexample:
  "onBorder 1 1 0 0 \<and> (0::real) \<le> 0 \<and>
   fst (identify (thinned exactPrims [0, 0, 0, 255] 1 1) 1 1 0 0) ! (0 * 1 + 0) = STRONG \<and>
   hysteresis (thinned exactPrims [0, 0, 0, 255] 1 1) 1 1 0 0 ! (0 * 1 + 0) = STRONG \<and>
   onBorder 4 3 0 0 \<and> (0::real) < 50 \<and>
   fst (identify (thinned exactPrims whiteImage 4 3) 4 3 0 50) ! (0 * 4 + 0) = WEAK \<and>
   hysteresis (thinned exactPrims whiteImage 4 3) 4 3 0 50 ! (0 * 4 + 0) = STRONG"
proof -
  have t: "thinned exactPrims [0, 0, 0, 255] 1 1 = replicate (1 * 1) (Fin 0)"
    by (rule thinned_small) simp
  show ?thesis unfolding t thinned_white by code_simp
qed

subsection \<open>The claims about the pipeline\<close>

lemma newImageData_Inr:
  "(\<exists>img. newImageData data sw sh = Inr img) \<longleftrightarrow> length data = sw * sh * 4 \<and> 0 < sw \<and> 0 < sh"
proof
  assume "\<exists>img. newImageData data sw sh = Inr img"
  then have a: "length data \<noteq> 0" "length data mod 4 = 0" "sw \<noteq> 0"
    "(length data div 4) mod sw = 0" "(length data div 4) div sw = sh"
    unfolding newImageData_def by (auto split: if_splits)
  have "length data div 4 = sw * sh" using a(4,5) by auto
  moreover have "length data = (length data div 4) * 4" using a(2) by auto
  ultimately have l: "length data = sw * sh * 4" by simp
  with a(1,3) show "length data = sw * sh * 4 \<and> 0 < sw \<and> 0 < sh" by (cases sh) auto
next
  assume "length data = sw * sh * 4 \<and> 0 < sw \<and> 0 < sh"
  then show "\<exists>img. newImageData data sw sh = Inr img"
    by (simp add: newImageData_def)
qed

lemma newImageData_Inl:
  "newImageData data sw sh = Inl e \<Longrightarrow>
     e = (if length data = 0 \<or> length data mod 4 \<noteq> 0 then InvalidStateError else IndexSizeError)"
  by (auto simp: newImageData_def split: if_splits)

text \<open>
  The pipeline returns the paths of the mask exactly on a well-formed image; on any other
  it stops at the constructor of line 64.
\<close>

lemma tracePipeline_eq:
  "tracePipeline fp img low high s m =
     (if wellFormed img
      then Inr (vectoriseEdges (cannyEdgeDetection fp img low high) (imgWidth img) (imgHeight img) s m)
      else if length (imgData img) = 0 \<or> length (imgData img) mod 4 \<noteq> 0
      then Inl InvalidStateError else Inl IndexSizeError)"
proof -
  let ?E = "cannyEdgeDetection fp img low high"
  have l: "length ?E = length (imgData img)"
    by (simp add: cannyEdgeDetection_def Let_def)
  show ?thesis
  proof (cases "newImageData ?E (imgWidth img) (imgHeight img)")
    case (Inl e)
    have "\<not> wellFormed img"
      using newImageData_Inr[of ?E "imgWidth img" "imgHeight img"] Inl l
      by (simp add: wellFormed_def)
    then show ?thesis
      using Inl newImageData_Inl[OF Inl] l by (simp add: tracePipeline_def Let_def)
  next
    case (Inr outputImage)
    then have "wellFormed img"
      using newImageData_Inr[of ?E "imgWidth img" "imgHeight img"] l
      by (auto simp: wellFormed_def)
    then show ?thesis using Inr by (simp add: tracePipeline_def Let_def)
  qed
qed

lemma hysteresis_no_strong:
  assumes len: "length nms = w * h" and z: "\<forall>i < w * h. \<not> jge (nms ! i) (Fin high)"
  shows "length (hysteresis nms w h low high) = w * h \<and>
         (\<forall>k < w * h. hysteresis nms w h low high ! k \<noteq> STRONG)"
proof -
  obtain tm st where id: "identify nms w h low high = (tm, st)"
    by (cases "identify nms w h low high")
  have "set st = {}" using identify_spec(3)[OF len id] z by simp
  then have "hysteresis nms w h low high = tm" using id by (simp add: hysteresis_def)
  moreover have "\<forall>k < w * h. tm ! k \<noteq> STRONG"
    using identify_spec(2)[OF len id] z by simp
  ultimately show ?thesis using identify_spec(1)[OF len id] by simp
qed

text \<open>
  C6, amended.  For an image with \<open>W < 3\<close> or \<open>H < 3\<close> and a strictly positive high
  threshold, the blurred field is all zeros, the vectorizer finds no path in the mask of
  the edge detection, and the pipeline returns the empty set of paths without error on
  every well-formed image.
\<close>

theorem small_image_empty:
  assumes "imgWidth imageData < 3 \<or> imgHeight imageData < 3" and "0 < highThreshold"
  shows "gaussianBlur (toGrayscale fp (imgData imageData)) (imgWidth imageData) (imgHeight imageData)
           = replicate (length (imgData imageData) div 4) (Fin 0) \<and>
         vectoriseEdges (cannyEdgeDetection fp imageData lowThreshold highThreshold)
           (imgWidth imageData) (imgHeight imageData) simplification minPathLength = [] \<and>
         (wellFormed imageData \<longrightarrow>
            tracePipeline fp imageData lowThreshold highThreshold simplification minPathLength
              = Inr [])"
proof -
  let ?w = "imgWidth imageData" and ?h = "imgHeight imageData"
  let ?nms = "thinned fp (imgData imageData) ?w ?h"
  have b: "gaussianBlur (toGrayscale fp (imgData imageData)) ?w ?h
             = replicate (length (imgData imageData) div 4) (Fin 0)"
    using assms(1) by (simp add: gaussianBlur_small toGrayscale_def)
  have n: "?nms = replicate (?w * ?h) (Fin 0)"
    using assms(1) by (rule thinned_small)
  have "\<forall>i < ?w * ?h. \<not> jge (?nms ! i) (Fin highThreshold)"
    using assms(2) by (simp add: n)
  then have "length (hysteresis ?nms ?w ?h lowThreshold highThreshold) = ?w * ?h \<and>
             (\<forall>k < ?w * ?h. hysteresis ?nms ?w ?h lowThreshold highThreshold ! k \<noteq> STRONG)"
    by (intro hysteresis_no_strong) simp
  then have "edgePixels (cannyEdgeDetection fp imageData lowThreshold highThreshold) ?w ?h = []"
    unfolding cannyEdgeDetection_def Let_def by (intro edgePixels_none) simp
  then have v: "vectoriseEdges (cannyEdgeDetection fp imageData lowThreshold highThreshold)
                  ?w ?h simplification minPathLength = []"
    by (rule vectoriseEdges_none)
  show ?thesis using b v by (simp add: tracePipeline_eq)
qed

theorem small_image_empty_witness:
  "(imgWidth \<lparr>imgWidth = 1, imgHeight = 1, imgData = [0, 0, 0, 255]\<rparr> < 3 \<or>
    imgHeight \<lparr>imgWidth = 1, imgHeight = 1, imgData = [0, 0, 0, 255]\<rparr> < 3) \<and> (0::real) < 150 \<and>
   wellFormed \<lparr>imgWidth = 1, imgHeight = 1, imgData = [0, 0, 0, 255]\<rparr> \<and>
   gaussianBlur (toGrayscale exactPrims [0, 0, 0, 255]) 1 1 = [Fin 0] \<and>
   tracePipeline exactPrims \<lparr>imgWidth = 1, imgHeight = 1, imgData = [0, 0, 0, 255]\<rparr> 50 150 2 20
     = Inr []"
proof -
  let ?img = "\<lparr>imgWidth = 1, imgHeight = 1, imgData = [0, 0, 0, 255]\<rparr>"
  have h: "imgWidth ?img < 3 \<or> imgHeight ?img < 3" "(0::real) < 150" by simp_all
  have wf: "wellFormed ?img" by (simp add: wellFormed_def)
  show ?thesis
    using h wf small_image_empty[OF h, of exactPrims 50 2 20] by simp
qed

text \<open>
  The pipeline on a well-formed image without interior pixels: the classifier runs on
  the all-zero field.  No floating-point operation is performed.
\<close>

lemma tracePipeline_small:
  assumes "imgWidth img < 3 \<or> imgHeight img < 3" and "wellFormed img"
  shows "tracePipeline fp img low high s m =
           Inr (vectoriseEdges
                  (toRGBA (length (imgData img))
                     (hysteresis (replicate (imgWidth img * imgHeight img) (Fin 0))
                        (imgWidth img) (imgHeight img) low high))
                  (imgWidth img) (imgHeight img) s m)"
  by (simp add: tracePipeline_eq assms(2) cannyEdgeDetection_def Let_def thinned_small[OF assms(1)])

text \<open>
  C6, as the specification states it, fails for the high threshold 0: on a black image
  2 wide and 1 high every pixel is seeded \<open>STRONG\<close>, and with \<open>minPathLength = 0\<close>
  the two pixels come out as one path.
\<close>

theorem small_image_counterexample:
  "(2::nat) < 3 \<and> (0::real) \<le> 0 \<and>
   tracePipeline exactPrims \<lparr>imgWidth = 2, imgHeight = 1, imgData = [0, 0, 0, 255, 0, 0, 0, 255]\<rparr>
     0 0 1 0 = Inr [[(0, 0), (1, 0)]]"
proof -
  let ?img = "\<lparr>imgWidth = 2, imgHeight = 1, imgData = [0, 0, 0, 255, 0, 0, 0, 255]\<rparr>"
  have "tracePipeline exactPrims ?img 0 0 1 0 =
           Inr (vectoriseEdges
                  (toRGBA (length (imgData ?img))
                     (hysteresis (replicate (imgWidth ?img * imgHeight ?img) (Fin 0))
                        (imgWidth ?img) (imgHeight ?img) 0 0))
                  (imgWidth ?img) (imgHeight ?img) 1 0)"
    by (rule tracePipeline_small) (simp_all add: wellFormed_def)
  also have "\<dots> = Inr [[(0, 0), (1, 0)]]" by code_simp
  finally show ?thesis by simp
qed

text \<open>
  C4, as the specification states it, fails: there is no test of the two thresholds, and
  with \<open>lowThreshold = 100 > highThreshold = 50\<close> the pipeline returns a result.
\<close>

theorem inverted_thresholds_counterexample:
  "(50::real) < 100 \<and>
   tracePipeline exactPrims \<lparr>imgWidth = 1, imgHeight = 1, imgData = [0, 0, 0, 255]\<rparr>
     100 50 2 20 = Inr []"
proof -
  let ?img = "\<lparr>imgWidth = 1, imgHeight = 1, imgData = [0, 0, 0, 255]\<rparr>"
  have "tracePipeline exactPrims ?img 100 50 2 20 =
           Inr (vectoriseEdges
                  (toRGBA (length (imgData ?img))
                     (hysteresis (replicate (imgWidth ?img * imgHeight ?img) (Fin 0))
                        (imgWidth ?img) (imgHeight ?img) 100 50))
                  (imgWidth ?img) (imgHeight ?img) 2 20)"
    by (rule tracePipeline_small) (simp_all add: wellFormed_def)
  also have "\<dots> = Inr []" by code_simp
  finally show ?thesis by simp
qed

text \<open>
  C4, amended.  With \<open>lowThreshold > highThreshold\<close> the pipeline returns a result on
  every well-formed image, and the classifier is a single hard threshold at
  \<open>highThreshold\<close>: no pixel is weak, and a pixel is \<open>STRONG\<close> exactly when its
  thinned magnitude is at least \<open>highThreshold\<close>.
\<close>

theorem inverted_thresholds:
  assumes "highThreshold < lowThreshold"
  shows "(wellFormed imageData \<longrightarrow>
            (\<exists>paths. tracePipeline fp imageData lowThreshold highThreshold simplification
                       minPathLength = Inr paths)) \<and>
         hysteresis (thinned fp (imgData imageData) (imgWidth imageData) (imgHeight imageData))
             (imgWidth imageData) (imgHeight imageData) lowThreshold highThreshold
           = map (\<lambda>v. if jge v (Fin highThreshold) then STRONG else NONE)
               (thinned fp (imgData imageData) (imgWidth imageData) (imgHeight imageData))"
proof -
  let ?w = "imgWidth imageData" and ?h = "imgHeight imageData"
  let ?nms = "thinned fp (imgData imageData) ?w ?h"
  obtain tm st where id: "identify ?nms ?w ?h lowThreshold highThreshold = (tm, st)"
    by (cases "identify ?nms ?w ?h lowThreshold highThreshold")
  have len: "length ?nms = ?w * ?h" by simp
  have l: "length tm = ?w * ?h" using identify_spec(1)[OF len id] .
  have t: "\<And>i. i < ?w * ?h \<Longrightarrow>
             tm ! i = (if jge (?nms ! i) (Fin highThreshold) then STRONG else NONE)"
  proof -
    fix i assume i: "i < ?w * ?h"
    have "jge (?nms ! i) (Fin lowThreshold) \<Longrightarrow> jge (?nms ! i) (Fin highThreshold)"
      using assms by (intro jge_threshold_mono[of highThreshold lowThreshold]) simp_all
    then show "tm ! i = (if jge (?nms ! i) (Fin highThreshold) then STRONG else NONE)"
      using identify_spec(2)[OF len id i] by auto
  qed
  have "\<forall>i < length tm. tm ! i \<noteq> WEAK" using t l by simp
  then have "propagate ?w ?h tm st = tm" by (rule propagate_no_weak)
  then have "hysteresis ?nms ?w ?h lowThreshold highThreshold = tm"
    using id by (simp add: hysteresis_def)
  moreover have "tm = map (\<lambda>v. if jge v (Fin highThreshold) then STRONG else NONE) ?nms"
    using l t by (intro nth_equalityI) simp_all
  ultimately show ?thesis by (simp add: tracePipeline_eq)
qed

theorem inverted_thresholds_witness:
  "(50::real) < 100 \<and>
   wellFormed \<lparr>imgWidth = 1, imgHeight = 1, imgData = [0, 0, 0, 255]\<rparr> \<and>
   (\<exists>paths. tracePipeline exactPrims \<lparr>imgWidth = 1, imgHeight = 1, imgData = [0, 0, 0, 255]\<rparr>
              100 50 2 20 = Inr paths) \<and>
   hysteresis (thinned exactPrims [0, 0, 0, 255] 1 1) 1 1 100 50
     = map (\<lambda>v. if jge v (Fin 50) then STRONG else NONE) (thinned exactPrims [0, 0, 0, 255] 1 1)"
proof -
  have h: "(50::real) < 100" by simp
  have wf: "wellFormed \<lparr>imgWidth = 1, imgHeight = 1, imgData = [0, 0, 0, 255]\<rparr>"
    by (simp add: wellFormed_def)
  show ?thesis
    using h wf inverted_thresholds[OF h, of
        "\<lparr>imgWidth = 1, imgHeight = 1, imgData = [0, 0, 0, 255]\<rparr>" exactPrims 2 20]
    by simp
qed




end
